theory Spec2Isabelle
  imports Complex_Main
begin

section \<open>Values, issues and results\<close>

text \<open>
  JavaScript numbers are compared by the validator and never computed with, so the
  model keeps what the comparisons can see: not-a-number, negative zero, and every
  other number by its value (\<open>Fin 0\<close> is positive zero).
\<close>

datatype jsnum = NaN | NegZero | Fin rat

text \<open>\<^verbatim>\<open>type Literal = string | number | bigint | boolean\<close>\<close>

datatype literal = LStr string | LNum jsnum | LBig int | LBool bool

text \<open>\<^verbatim>\<open>type Key = string | number\<close>; the numbers the validator produces are array indices.\<close>

datatype key = KStr string | KNum nat

text \<open>
  The inputs of a validator: JSON-like data, \<open>undefined\<close>, bigints, functions and the
  module's private symbol \<open>Nothing\<close>. An object is a plain object (its prototype is
  \<open>Object.prototype\<close>), given by the list of its own enumerable properties in the
  order \<open>for ... in\<close> enumerates them: the keys pairwise distinct, the array indices
  first and ascending. An array is the list of its elements.
\<close>

datatype jsval =
    VUndefined
  | VNull
  | VNothing
  | VBool bool
  | VNum jsnum
  | VStr string
  | VBig int
  | VObj "(string \<times> jsval) list"
  | VArr "jsval list"
  | VFunction

text \<open>\<^verbatim>\<open>type BaseType = "object" | "array" | "null" | ...\<close>, kept as the strings they are.\<close>

type_synonym basetype = string

datatype customerror =
    CEUndefined
  | CEString string
  | CEObject "string option" "key list option"

text \<open>
  \<^verbatim>\<open>type IssueTree = prepend | join | Issue\<close>. Every issue has the optional field
  \<open>path\<close>, the first argument of the six issue constructors.
\<close>

datatype issue_tree =
    Prepend key issue_tree
  | Join issue_tree issue_tree
  | Invalid_type "key list option" "basetype list"
  | Invalid_literal "key list option" "literal list"
  | Missing_key "key list option" key
  | Unrecognized_key "key list option" key
  | Invalid_union "key list option" issue_tree
  | Custom_error "key list option" customerror

type_synonym issue = issue_tree

text \<open>\<^verbatim>\<open>type Result<T> = true | { code: "ok", value: T } | IssueTree\<close>\<close>

datatype result = RTrue | ROk jsval | RErr issue_tree

datatype funcmode = PASS | STRICT | STRIP

type_synonym func = "jsval \<Rightarrow> funcmode \<Rightarrow> result"

datatype schema =
    NothingType
  | UnknownType
  | NumberType
  | StringType
  | BigIntType
  | BooleanType
  | UndefinedType
  | NullType
  | LiteralType literal
  | ObjectType "(string \<times> schema) list" "schema option"
  | ArrayType schema
  | UnionType "schema list"
  | OptionalType schema
  | TransformType schema "jsval \<Rightarrow> result"

section \<open>Collecting issues\<close>

fun issue_path :: "issue \<Rightarrow> key list option" where
  "issue_path (Invalid_type p e) = p"
| "issue_path (Invalid_literal p e) = p"
| "issue_path (Missing_key p k) = p"
| "issue_path (Unrecognized_key p k) = p"
| "issue_path (Invalid_union p t) = p"
| "issue_path (Custom_error p e) = p"
| "issue_path (Prepend k t) = None"
| "issue_path (Join l r) = None"

fun set_path :: "key list \<Rightarrow> issue \<Rightarrow> issue" where
  "set_path q (Invalid_type p e) = Invalid_type (Some q) e"
| "set_path q (Invalid_literal p e) = Invalid_literal (Some q) e"
| "set_path q (Missing_key p k) = Missing_key (Some q) k"
| "set_path q (Unrecognized_key p k) = Unrecognized_key (Some q) k"
| "set_path q (Invalid_union p t) = Invalid_union (Some q) t"
| "set_path q (Custom_error p e) = Custom_error (Some q) e"
| "set_path q (Prepend k t) = Prepend k t"
| "set_path q (Join l r) = Join l r"

text \<open>The path a \<open>custom_error\<close> carries in its error object, if any.\<close>

fun error_path :: "issue \<Rightarrow> key list" where
  "error_path (Custom_error p (CEObject m (Some q))) = q"
| "error_path t = []"

definition opt_path :: "key list option \<Rightarrow> key list" where
  "opt_path p = (case p of None \<Rightarrow> [] | Some q \<Rightarrow> q)"

text \<open>
  \<open>_collectIssues(tree, path, issues)\<close>: the path stack is passed down (a push before
  and a pop after the recursive call), the issues pushed are the list returned.
\<close>

fun collectIssues_aux :: "issue_tree \<Rightarrow> key list \<Rightarrow> issue list" where
  "collectIssues_aux (Join l r) path = collectIssues_aux l path @ collectIssues_aux r path"
| "collectIssues_aux (Prepend k t) path = collectIssues_aux t (path @ [k])"
| "collectIssues_aux t path =
     [set_path (path @ opt_path (issue_path t) @ error_path t) t]"

definition collectIssues :: "issue_tree \<Rightarrow> issue list" where
  "collectIssues tree = collectIssues_aux tree []"

definition joinIssues :: "issue_tree \<Rightarrow> issue_tree option \<Rightarrow> issue_tree" where
  "joinIssues left right = (case right of Some r \<Rightarrow> Join left r | None \<Rightarrow> left)"

definition prependPath :: "key \<Rightarrow> issue_tree \<Rightarrow> issue_tree" where
  "prependPath k tree = Prepend k tree"

section \<open>Schema nodes\<close>

fun name :: "schema \<Rightarrow> string" where
  "name NothingType = ''nothing''"
| "name UnknownType = ''unknown''"
| "name NumberType = ''number''"
| "name StringType = ''string''"
| "name BigIntType = ''bigint''"
| "name BooleanType = ''boolean''"
| "name UndefinedType = ''undefined''"
| "name NullType = ''null''"
| "name (LiteralType v) = ''literal''"
| "name (ObjectType shape rest) = ''object''"
| "name (ArrayType item) = ''array''"
| "name (UnionType options) = ''union''"
| "name (OptionalType t) = ''optional''"
| "name (TransformType t f) = ''transform''"

text \<open>
  \<open>toTerminals(into)\<close> pushes onto \<open>into\<close>; the model returns the terminals pushed, in
  the order of the pushes.
\<close>

fun toTerminals :: "schema \<Rightarrow> schema list" where
  "toTerminals (UnionType options) = concat (map toTerminals options)"
| "toTerminals (OptionalType t) = NothingType # UndefinedType # toTerminals t"
| "toTerminals (TransformType t f) = toTerminals t"
| "toTerminals t = [t]"

definition isOptional :: "schema \<Rightarrow> bool" where
  "isOptional t = list_ex (\<lambda>u. name u = ''nothing'') (toTerminals t)"

fun isObject :: "jsval \<Rightarrow> bool" where
  "isObject (VObj obj) = True"
| "isObject v = False"

text \<open>\<open>typeof\<close>, with \<open>null\<close> and arrays told apart.\<close>

fun toBaseType :: "jsval \<Rightarrow> basetype" where
  "toBaseType VUndefined = ''undefined''"
| "toBaseType VNull = ''null''"
| "toBaseType VNothing = ''symbol''"
| "toBaseType (VBool b) = ''boolean''"
| "toBaseType (VNum n) = ''number''"
| "toBaseType (VStr s) = ''string''"
| "toBaseType (VBig i) = ''bigint''"
| "toBaseType (VObj obj) = ''object''"
| "toBaseType (VArr xs) = ''array''"
| "toBaseType VFunction = ''function''"

fun lit_val :: "literal \<Rightarrow> jsval" where
  "lit_val (LStr s) = VStr s"
| "lit_val (LNum n) = VNum n"
| "lit_val (LBig i) = VBig i"
| "lit_val (LBool b) = VBool b"

text \<open>
  \<open>v === value\<close> for a literal \<open>value\<close>: primitives of the same type with the same
  value, where not-a-number equals nothing and the two zeros are equal.
\<close>

fun num_strict_eq :: "jsnum \<Rightarrow> jsnum \<Rightarrow> bool" where
  "num_strict_eq NaN b = False"
| "num_strict_eq a NaN = False"
| "num_strict_eq NegZero NegZero = True"
| "num_strict_eq NegZero (Fin q) = (q = 0)"
| "num_strict_eq (Fin q) NegZero = (q = 0)"
| "num_strict_eq (Fin p) (Fin q) = (p = q)"

fun strict_eq :: "jsval \<Rightarrow> literal \<Rightarrow> bool" where
  "strict_eq (VStr s) (LStr s') = (s = s')"
| "strict_eq (VNum a) (LNum b) = num_strict_eq a b"
| "strict_eq (VBig i) (LBig j) = (i = j)"
| "strict_eq (VBool b) (LBool c) = (b = c)"
| "strict_eq v l = False"

section \<open>Objects\<close>

text \<open>
  The properties every plain object inherits, those of \<open>Object.prototype\<close>: functions,
  and the accessor \<open>__proto__\<close>, whose value is the prototype, an object without
  enumerable properties. They are not enumerated by \<open>for ... in\<close> and not copied by a
  spread.
\<close>

definition object_prototype :: "(string \<times> jsval) list" where
  "object_prototype =
     [(''constructor'', VFunction), (''hasOwnProperty'', VFunction),
      (''isPrototypeOf'', VFunction), (''propertyIsEnumerable'', VFunction),
      (''toLocaleString'', VFunction), (''toString'', VFunction), (''valueOf'', VFunction),
      (''__defineGetter__'', VFunction), (''__defineSetter__'', VFunction),
      (''__lookupGetter__'', VFunction), (''__lookupSetter__'', VFunction),
      (''__proto__'', VObj [])]"

text \<open>
  \<open>obj[key]\<close> together with \<open>key in obj\<close>: the own property, else the inherited one;
  \<open>None\<close> when \<open>key in obj\<close> is false.
\<close>

definition obj_get :: "(string \<times> jsval) list \<Rightarrow> string \<Rightarrow> jsval option" where
  "obj_get obj k = (case map_of obj k of Some v \<Rightarrow> Some v | None \<Rightarrow> map_of object_prototype k)"

text \<open>
  The array index a key is, if it is one: the key is the decimal numeral, without
  leading zeros, of a number below \<open>2^32 - 1\<close>.
\<close>

definition is_digit :: "char \<Rightarrow> bool" where
  "is_digit c = (c \<in> set ''0123456789'')"

definition index_of :: "string \<Rightarrow> nat option" where
  "index_of s =
     (if s \<noteq> [] \<and> list_all is_digit s \<and> (hd s \<noteq> CHR ''0'' \<or> s = ''0'')
      then (let n = foldl (\<lambda>n c. 10 * n + (of_char c - 48)) (0::nat) s
            in if n < 4294967295 then Some n else None)
      else None)"

text \<open>A new key \<open>k\<close> is enumerated before the key \<open>k'\<close> of an object.\<close>

definition before :: "string \<Rightarrow> string \<Rightarrow> bool" where
  "before k k' =
     (case index_of k of
        None \<Rightarrow> False
      | Some n \<Rightarrow> (case index_of k' of None \<Rightarrow> True | Some n' \<Rightarrow> n < n'))"

fun replace_key :: "(string \<times> jsval) list \<Rightarrow> string \<Rightarrow> jsval \<Rightarrow> (string \<times> jsval) list" where
  "replace_key [] k v = []"
| "replace_key ((k', v') # es) k v =
     (if k' = k then (k, v) # es else (k', v') # replace_key es k v)"

fun insert_key :: "(string \<times> jsval) list \<Rightarrow> string \<Rightarrow> jsval \<Rightarrow> (string \<times> jsval) list" where
  "insert_key [] k v = [(k, v)]"
| "insert_key ((k', v') # es) k v =
     (if before k k' then (k, v) # (k', v') # es else (k', v') # insert_key es k v)"

text \<open>
  \<open>output[key] = v\<close> on an object: an own key keeps its place; a new key goes among the
  array indices if it is one, and last if not. Assigning to the inherited accessor
  \<open>__proto__\<close> creates no own property (it replaces the prototype when \<open>v\<close> is an object,
  which leaves the plain objects of this model).
\<close>

definition obj_set :: "(string \<times> jsval) list \<Rightarrow> string \<Rightarrow> jsval \<Rightarrow> (string \<times> jsval) list" where
  "obj_set obj k v =
     (if map_of obj k \<noteq> None then replace_key obj k v
      else if k = ''__proto__'' then obj
      else insert_key obj k v)"

text \<open>\<open>shapeTemplate = {}\<close>, then \<open>shapeTemplate[key] = undefined\<close> for each key of the shape.\<close>

definition shapeTemplate :: "string list \<Rightarrow> (string \<times> jsval) list" where
  "shapeTemplate keys = foldl (\<lambda>obj k. obj_set obj k VUndefined) [] keys"

text \<open>
  The state of the two loops of \<open>ObjectType.genFunc\<close>: \<open>issueTree\<close>, and \<open>output\<close>,
  which is \<open>None\<close> as long as \<open>output === obj\<close> and the clone once one was made.
\<close>

type_synonym objstate = "issue_tree option \<times> (string \<times> jsval) list option"

text \<open>\<open>if (output === obj) { output = { ...template } }  output[key] = v\<close>\<close>

definition clone_set ::
  "(string \<times> jsval) list \<Rightarrow> (string \<times> jsval) list option \<Rightarrow> string \<Rightarrow> jsval
    \<Rightarrow> (string \<times> jsval) list option" where
  "clone_set template output k v =
     Some (obj_set (case output of None \<Rightarrow> template | Some out \<Rightarrow> out) k v)"

text \<open>
  The loop \<open>for (const key in obj)\<close> over the entries still to visit. \<open>Inl\<close> is the
  \<open>return\<close> inside the loop; the \<open>break\<close> of strip mode leaves the loop with the state.
\<close>

fun rest_loop ::
  "string list \<Rightarrow> func option \<Rightarrow> funcmode \<Rightarrow> (string \<times> jsval) list
    \<Rightarrow> (string \<times> jsval) list \<Rightarrow> objstate \<Rightarrow> result + objstate" where
  "rest_loop knownKeys rest mode template [] st = Inr st"
| "rest_loop knownKeys rest mode template ((k, v) # es) (issueTree, output) =
     (if k \<notin> set knownKeys then
        if mode = STRICT then Inl (RErr (Unrecognized_key None (KStr k)))
        else if mode = STRIP then Inr (issueTree, Some template)
        else (case rest of
            Some restf \<Rightarrow>
              (case restf v mode of
                RTrue \<Rightarrow> rest_loop knownKeys rest mode template es (issueTree, output)
              | ROk w \<Rightarrow>
                  rest_loop knownKeys rest mode template es
                    (issueTree, clone_set template output k w)
              | RErr r \<Rightarrow>
                  rest_loop knownKeys rest mode template es
                    (Some (joinIssues (prependPath (KStr k) r) issueTree), output))
          | None \<Rightarrow> rest_loop knownKeys rest mode template es (issueTree, output))
      else rest_loop knownKeys rest mode template es (issueTree, output))"

text \<open>
  The loop \<open>for (let i = 0; i < keys.length; i++)\<close> over the entries
  \<open>(keys[i], funcs[i], required[i])\<close> still to visit.
\<close>

fun keys_loop ::
  "funcmode \<Rightarrow> (string \<times> jsval) list \<Rightarrow> (string \<times> jsval) list
    \<Rightarrow> (string \<times> func \<times> bool) list \<Rightarrow> objstate \<Rightarrow> result + objstate" where
  "keys_loop mode template obj [] st = Inr st"
| "keys_loop mode template obj ((k, f, req) # ks) (issueTree, output) =
     (if obj_get obj k = None \<and> req then Inl (RErr (Missing_key None (KStr k)))
      else
        let val = (case obj_get obj k of None \<Rightarrow> VNothing | Some v \<Rightarrow> v) in
        (case f val mode of
          RTrue \<Rightarrow>
            keys_loop mode template obj ks
              (issueTree,
               if mode = STRIP \<and> output \<noteq> None then clone_set template output k val
               else output)
        | ROk w \<Rightarrow> keys_loop mode template obj ks (issueTree, clone_set template output k w)
        | RErr r \<Rightarrow>
            keys_loop mode template obj ks
              (Some (joinIssues (prependPath (KStr k) r) issueTree), output)))"

text \<open>The end of both validators: issues, else the input itself, else the clone.\<close>

definition finish :: "issue_tree option \<Rightarrow> jsval option \<Rightarrow> result" where
  "finish issueTree output =
     (case issueTree of
        Some t \<Rightarrow> RErr t
      | None \<Rightarrow> (case output of None \<Rightarrow> RTrue | Some out \<Rightarrow> ROk out))"

text \<open>
  The function \<open>ObjectType.genFunc\<close> returns, for the arrays \<open>keys\<close>, \<open>funcs\<close> and
  \<open>required\<close> and the function \<open>rest\<close> it closes over; \<open>keys\<close> are the keys of the
  shape as \<open>for ... in\<close> enumerates them, and \<open>knownKeys\<close> holds them.
\<close>

definition objectFunc ::
  "string list \<Rightarrow> func list \<Rightarrow> bool list \<Rightarrow> func option \<Rightarrow> func" where
  "objectFunc keys funcs required rest v mode =
     (case v of
        VObj obj \<Rightarrow>
          let template =
                (if mode = PASS \<or> rest \<noteq> None then obj
                 else shapeTemplate keys) in
          (case (if mode = STRICT \<or> mode = STRIP \<or> rest \<noteq> None
                 then rest_loop keys rest mode template obj (None, None)
                 else Inr (None, None)) of
             Inl r \<Rightarrow> r
           | Inr st \<Rightarrow>
               (case keys_loop mode template obj (zip keys (zip funcs required)) st of
                  Inl r \<Rightarrow> r
                | Inr (issueTree, output) \<Rightarrow> finish issueTree (map_option VObj output)))
      | _ \<Rightarrow> RErr (Invalid_type None [''object'']))"

section \<open>Arrays\<close>

text \<open>
  The loop of \<open>ArrayType.genFunc\<close> at index \<open>i\<close>, over the elements from \<open>i\<close> on;
  \<open>output\<close> is \<open>None\<close> as long as \<open>output === arr\<close>.
\<close>

fun array_loop ::
  "func \<Rightarrow> funcmode \<Rightarrow> jsval list \<Rightarrow> nat \<Rightarrow> jsval list
    \<Rightarrow> issue_tree option \<times> jsval list option \<Rightarrow> issue_tree option \<times> jsval list option" where
  "array_loop f mode arr i [] st = st"
| "array_loop f mode arr i (x # xs) (issueTree, output) =
     (case f x mode of
        RTrue \<Rightarrow> array_loop f mode arr (Suc i) xs (issueTree, output)
      | ROk w \<Rightarrow>
          array_loop f mode arr (Suc i) xs
            (issueTree, Some ((case output of None \<Rightarrow> arr | Some out \<Rightarrow> out)[i := w]))
      | RErr r \<Rightarrow>
          array_loop f mode arr (Suc i) xs
            (Some (joinIssues (prependPath (KNum i) r) issueTree), output))"

definition arrayFunc :: "func \<Rightarrow> func" where
  "arrayFunc f v mode =
     (case v of
        VArr arr \<Rightarrow>
          (case array_loop f mode arr 0 arr (None, None) of
             (issueTree, output) \<Rightarrow> finish issueTree (map_option VArr output))
      | _ \<Rightarrow> RErr (Invalid_type None [''array'']))"

section \<open>Maps, sets and lists of the union analysis\<close>

text \<open>
  A JavaScript \<open>Map\<close> is the list of its entries in insertion order: \<open>set\<close> on a key
  already there keeps the entry's place. A \<open>Set\<close> is the list of its elements in
  insertion order.
\<close>

fun map_set :: "('k \<times> 'v) list \<Rightarrow> 'k \<Rightarrow> 'v \<Rightarrow> ('k \<times> 'v) list" where
  "map_set [] k v = [(k, v)]"
| "map_set ((k', v') # es) k v =
     (if k' = k then (k, v) # es else (k', v') # map_set es k v)"

definition map_delete :: "('k \<times> 'v) list \<Rightarrow> 'k \<Rightarrow> ('k \<times> 'v) list" where
  "map_delete m k = filter (\<lambda>e. fst e \<noteq> k) m"

definition set_add :: "'a list \<Rightarrow> 'a \<Rightarrow> 'a list" where
  "set_add s x = (if x \<in> set s then s else s @ [x])"

text \<open>\<open>const options = m.get(k) || []; options.push(r); m.set(k, options)\<close>\<close>

definition map_push :: "('k \<times> 'r list) list \<Rightarrow> 'k \<Rightarrow> 'r \<Rightarrow> ('k \<times> 'r list) list" where
  "map_push m k r = map_set m k ((case map_of m k of None \<Rightarrow> [] | Some rs \<Rightarrow> rs) @ [r])"

text \<open>
  A \<open>Map\<close> compares its keys by SameValueZero: not-a-number is one key, and negative
  zero is stored as positive zero. \<open>lit_key\<close> is the key a literal is stored under,
  \<open>as_literal\<close> the literal a value can be looked up as (objects, arrays,
  \<open>undefined\<close>, \<open>null\<close> and symbols are equal to no literal key).
\<close>

fun lit_key :: "literal \<Rightarrow> literal" where
  "lit_key (LNum NegZero) = LNum (Fin 0)"
| "lit_key l = l"

fun as_literal :: "jsval \<Rightarrow> literal option" where
  "as_literal (VStr s) = Some (LStr s)"
| "as_literal (VNum n) = Some (LNum n)"
| "as_literal (VBig i) = Some (LBig i)"
| "as_literal (VBool b) = Some (LBool b)"
| "as_literal v = None"

definition literals_get :: "(literal \<times> 'r list) list \<Rightarrow> jsval \<Rightarrow> 'r list option" where
  "literals_get m v = (case as_literal v of None \<Rightarrow> None | Some l \<Rightarrow> map_of m (lit_key l))"

text \<open>
  \<open>dedup\<close> and \<open>difference\<close> compare with a \<open>Set\<close>: numbers by value, \<open>Type\<close> objects
  by reference. \<open>ident\<close> gives what is compared: the number itself, or the position of
  the \<open>Type\<close> object among the union's options, which stands for its reference.
\<close>

fun dedup_loop :: "('a \<Rightarrow> nat) \<Rightarrow> nat list \<Rightarrow> 'a list \<Rightarrow> 'a list" where
  "dedup_loop ident seen [] = []"
| "dedup_loop ident seen (x # xs) =
     (if ident x \<in> set seen then dedup_loop ident seen xs
      else x # dedup_loop ident (seen @ [ident x]) xs)"

definition dedup :: "('a \<Rightarrow> nat) \<Rightarrow> 'a list \<Rightarrow> 'a list" where
  "dedup ident arr = dedup_loop ident [] arr"

definition difference :: "('a \<Rightarrow> nat) \<Rightarrow> 'a list \<Rightarrow> 'a list \<Rightarrow> 'a list" where
  "difference ident arr1 arr2 = filter (\<lambda>x. ident x \<notin> set (map ident arr2)) arr1"

fun count_keys :: "(string \<times> nat) list \<Rightarrow> string list \<Rightarrow> (string \<times> nat) list" where
  "count_keys m [] = m"
| "count_keys m (k # ks) =
     count_keys (map_set m k ((case map_of m k of None \<Rightarrow> 0 | Some c \<Rightarrow> c) + 1)) ks"

definition findCommonKeys :: "(string \<times> schema) list list \<Rightarrow> string list" where
  "findCommonKeys rs =
     map fst (filter (\<lambda>e. snd e = length rs)
       (foldl (\<lambda>m r. count_keys m (map fst r)) [] rs))"

section \<open>Union dispatch\<close>

text \<open>
  The tables \<open>createUnionMatcher\<close> builds, and the ones the filter of
  \<open>createObjectMatchers\<close> builds by the same steps over positions instead of roots.
\<close>

record 'r tables =
  literals :: "(literal \<times> 'r list) list"
  types :: "(basetype \<times> 'r list) list"
  allTypes :: "basetype list"
  unknowns :: "'r list"
  nothings :: "'r list"

definition empty_tables :: "'r tables" where
  "empty_tables = \<lparr>literals = [], types = [], allTypes = [], unknowns = [], nothings = []\<rparr>"

text \<open>The body of \<open>t.forEach(({ root, terminal }) => ...)\<close>.\<close>

definition classify :: "'r tables \<Rightarrow> 'r \<times> schema \<Rightarrow> 'r tables" where
  "classify tb rt =
     (case rt of (r, terminal) \<Rightarrow>
        if name terminal = ''nothing'' then tb\<lparr>nothings := nothings tb @ [r]\<rparr>
        else if name terminal = ''unknown'' then tb\<lparr>unknowns := unknowns tb @ [r]\<rparr>
        else (case terminal of
            LiteralType v \<Rightarrow>
              tb\<lparr>literals := map_push (literals tb) (lit_key v) r,
                 allTypes := set_add (allTypes tb) (toBaseType (lit_val v))\<rparr>
          | _ \<Rightarrow>
              tb\<lparr>types := map_push (types tb) (name terminal) r,
                 allTypes := set_add (allTypes tb) (name terminal)\<rparr>))"

text \<open>
  \<open>literals.forEach((vxs, value) => ...)\<close>: a literal whose base type has a bucket in
  \<open>types\<close> is appended to that bucket and deleted from \<open>literals\<close>.
\<close>

fun merge_literals ::
  "(literal \<times> 'r list) list \<Rightarrow> (literal \<times> 'r list) list \<Rightarrow> (basetype \<times> 'r list) list
    \<Rightarrow> (literal \<times> 'r list) list \<times> (basetype \<times> 'r list) list" where
  "merge_literals [] lits tys = (lits, tys)"
| "merge_literals ((v, vxs) # es) lits tys =
     (case map_of tys (toBaseType (lit_val v)) of
        Some opts \<Rightarrow>
          merge_literals es (map_delete lits v) (map_set tys (toBaseType (lit_val v)) (opts @ vxs))
      | None \<Rightarrow> merge_literals es lits tys)"

definition build_tables :: "('r \<Rightarrow> nat) \<Rightarrow> ('r \<times> schema) list \<Rightarrow> 'r tables" where
  "build_tables ident t =
     (let tb = foldl classify empty_tables t;
          unks = dedup ident (unknowns tb);
          noths = dedup ident (nothings tb);
          (lits, tys) = merge_literals (literals tb) (literals tb) (types tb)
      in \<lparr>literals = map (\<lambda>(v, roots). (v, difference ident (dedup ident roots) unks)) lits,
          types = map (\<lambda>(ty, roots). (ty, difference ident (dedup ident roots) unks)) tys,
          allTypes = allTypes tb,
          unknowns = unks,
          nothings = noths\<rparr>)"

text \<open>
  A root is a \<open>Type\<close> object, one of the options of the union: its position among the
  options, which stands for its reference (options at different positions are taken to
  be different objects), and its \<open>func\<close>.
\<close>

type_synonym root = "nat \<times> func"

text \<open>
  The three loops of the matcher have one body: call the root's \<open>func\<close> on
  \<open>rootValue\<close>, return its result at once when it is a success, else join the issues
  and count. \<open>Inl\<close> is the \<open>return\<close>.
\<close>

fun try_loop ::
  "root list \<Rightarrow> jsval \<Rightarrow> funcmode \<Rightarrow> issue_tree option \<times> nat
    \<Rightarrow> result + issue_tree option \<times> nat" where
  "try_loop [] rootValue mode st = Inr st"
| "try_loop (r # rs) rootValue mode (issueTree, count) =
     (case snd r rootValue mode of
        RErr e \<Rightarrow> try_loop rs rootValue mode (Some (joinIssues e issueTree), Suc count)
      | res \<Rightarrow> Inl res)"

definition matcher_end :: "key list option \<Rightarrow> literal list \<Rightarrow> issue_tree option \<times> nat \<Rightarrow> result" where
  "matcher_end path expectedLiterals st =
     (case st of (issueTree, count) \<Rightarrow>
        (case issueTree of
           Some t \<Rightarrow> if count > 1 then RErr (Invalid_union None t) else RErr t
         | None \<Rightarrow> RErr (Invalid_literal path expectedLiterals)))"

text \<open>
  \<open>const options = literals.get(value) || types.get(type)\<close>; the loop over \<open>options\<close>
  is skipped when there are none, as it is over the empty list.
\<close>

definition options_for :: "'r tables \<Rightarrow> jsval \<Rightarrow> 'r list" where
  "options_for tb v =
     (case literals_get (literals tb) v of
        Some opts \<Rightarrow> opts
      | None \<Rightarrow> (case map_of (types tb) (toBaseType v) of Some opts \<Rightarrow> opts | None \<Rightarrow> []))"

definition createUnionMatcher ::
  "(root \<times> schema) list \<Rightarrow> key list option \<Rightarrow> jsval \<Rightarrow> jsval \<Rightarrow> funcmode \<Rightarrow> result" where
  "createUnionMatcher t path rootValue v mode =
     (let tb = build_tables fst t;
          expectedTypes = allTypes tb;
          expectedLiterals = map fst (literals tb)
      in
        if v \<noteq> VNothing then
          if length (unknowns tb) = 0 \<and> toBaseType v \<notin> set (allTypes tb)
          then RErr (Invalid_type path expectedTypes)
          else
            (case try_loop (options_for tb v) rootValue mode (None, 0) of
               Inl r \<Rightarrow> r
             | Inr st \<Rightarrow>
                 (case try_loop (unknowns tb) rootValue mode st of
                    Inl r \<Rightarrow> r
                  | Inr st' \<Rightarrow> matcher_end path expectedLiterals st'))
        else
          (case try_loop (nothings tb) rootValue mode (None, 0) of
             Inl r \<Rightarrow> r
           | Inr st \<Rightarrow> matcher_end path expectedLiterals st))"

definition flatten :: "('r \<times> schema) list \<Rightarrow> ('r \<times> schema) list" where
  "flatten t = concat (map (\<lambda>(r, ty). map (\<lambda>terminal. (r, terminal)) (toTerminals ty)) t)"

text \<open>
  \<open>shape[key]\<close> for a key of \<open>common\<close>, which every shape has; the model gives the
  terminals of an absent key as the empty list.
\<close>

definition shape_terminals :: "(string \<times> schema) list \<Rightarrow> string \<Rightarrow> schema list" where
  "shape_terminals shape k = (case map_of shape k of Some ty \<Rightarrow> toTerminals ty | None \<Rightarrow> [])"

text \<open>The predicate of \<open>common.filter((key) => ...)\<close>.\<close>

definition is_discriminant :: "(string \<times> schema) list list \<Rightarrow> string \<Rightarrow> bool" where
  "is_discriminant shapes k =
     (let tb = build_tables id
                 (concat (map (\<lambda>(i, shape). map (\<lambda>terminal. (i, terminal)) (shape_terminals shape k))
                    (zip [0..<length shapes] shapes)))
      in
        if length (nothings tb) > 1 then False
        else if length (unknowns tb) > 1 then False
        else if length (unknowns tb) = 1 then literals tb = [] \<and> types tb = []
        else list_all (\<lambda>e. \<not> length (snd e) > 1) (literals tb)
           \<and> list_all (\<lambda>e. \<not> length (snd e) > 1) (types tb))"

text \<open>
  The entries of the list \<open>createObjectMatchers\<close> returns, one for each discriminant
  key. Every object shape has the key, so \<open>terminal.shape[key]\<close> is defined; the model
  skips a shape without it.
\<close>

record object_matcher =
  om_key :: string
  om_nothing :: "root option"
  om_matcher :: "jsval \<Rightarrow> jsval \<Rightarrow> funcmode \<Rightarrow> result"

definition createObjectMatchers :: "(root \<times> schema) list \<Rightarrow> object_matcher list" where
  "createObjectMatchers t =
     (let objects = List.map_filter
            (\<lambda>(r, terminal).
               case terminal of ObjectType shape rest \<Rightarrow> Some (r, shape) | _ \<Rightarrow> None) t;
          shapes = map snd objects;
          common = findCommonKeys shapes;
          discriminants = filter (is_discriminant shapes) common
      in map (\<lambda>k.
           let flattened =
                 flatten (concat (map (\<lambda>(r, shape).
                    case map_of shape k of Some ty \<Rightarrow> [(r, ty)] | None \<Rightarrow> []) objects))
           in \<lparr>om_key = k,
               om_nothing = map_option fst (find (\<lambda>(r, terminal). name terminal = ''nothing'') flattened),
               om_matcher = createUnionMatcher flattened (Some [KStr k])\<rparr>)
         discriminants)"

text \<open>
  The function \<open>UnionType.genFunc\<close> returns, for the options paired with their roots.
  Of the matchers of \<open>createObjectMatchers\<close> it uses the first.
\<close>

definition unionFunc :: "(root \<times> schema) list \<Rightarrow> func" where
  "unionFunc opts v mode =
     (let flattened = flatten opts;
          objects = createObjectMatchers flattened
      in case (objects, v) of
           (item # _, VObj obj) \<Rightarrow>
             (case obj_get obj (om_key item) of
                None \<Rightarrow>
                  (case om_nothing item of
                     Some r \<Rightarrow> snd r VNothing mode
                   | None \<Rightarrow> RErr (Missing_key None (KStr (om_key item))))
              | Some val \<Rightarrow> om_matcher item v val mode)
         | _ \<Rightarrow> createUnionMatcher flattened None v v mode)"

section \<open>The validators\<close>

fun func :: "schema \<Rightarrow> func" where
  "func NothingType = (\<lambda>v mode. if v = VNothing then RTrue else RErr (Invalid_type None []))"
| "func UnknownType = (\<lambda>v mode. RTrue)"
| "func NumberType =
     (\<lambda>v mode. case v of VNum n \<Rightarrow> RTrue | _ \<Rightarrow> RErr (Invalid_type None [''number'']))"
| "func StringType =
     (\<lambda>v mode. case v of VStr s \<Rightarrow> RTrue | _ \<Rightarrow> RErr (Invalid_type None [''string'']))"
| "func BigIntType =
     (\<lambda>v mode. case v of VBig i \<Rightarrow> RTrue | _ \<Rightarrow> RErr (Invalid_type None [''bigint'']))"
| "func BooleanType =
     (\<lambda>v mode. case v of VBool b \<Rightarrow> RTrue | _ \<Rightarrow> RErr (Invalid_type None [''boolean'']))"
| "func UndefinedType =
     (\<lambda>v mode. if v = VUndefined then RTrue else RErr (Invalid_type None [''undefined'']))"
| "func NullType =
     (\<lambda>v mode. if v = VNull then RTrue else RErr (Invalid_type None [''null'']))"
| "func (LiteralType val) =
     (\<lambda>v mode. if strict_eq v val then RTrue else RErr (Invalid_literal None [val]))"
| "func (ObjectType shape rest) =
     objectFunc (map fst shape) (map (\<lambda>e. func (snd e)) shape)
       (map (\<lambda>e. \<not> isOptional (snd e)) shape) (map_option func rest)"
| "func (ArrayType item) = arrayFunc (func item)"
| "func (UnionType opts) =
     unionFunc (zip (zip [0..<length opts] (map func opts)) opts)"
| "func (OptionalType t) =
     (\<lambda>v mode. if v = VNothing \<or> v = VUndefined then RTrue else func t v mode)"
| "func (TransformType t f) =
     (\<lambda>v mode. case func t v mode of RErr e \<Rightarrow> RErr e | RTrue \<Rightarrow> f v | ROk w \<Rightarrow> f w)"


definition applyT :: "schema \<Rightarrow> (jsval \<Rightarrow> jsval) \<Rightarrow> schema" where
  "applyT t g = TransformType t (\<lambda>v. ROk (g v))"

definition chainT :: "schema \<Rightarrow> (jsval \<Rightarrow> customerror + jsval) \<Rightarrow> schema" where
  "chainT t g =
     TransformType t
       (\<lambda>v. case g v of Inr w \<Rightarrow> ROk w | Inl e \<Rightarrow> RErr (Custom_error None e))"

section \<open>Parsing\<close>

datatype valita_error = ValitaError issue_tree

datatype parse_mode = Passthrough | Strict | Strip

text \<open>
  \<open>Type.parse(v, options)\<close>: \<open>None\<close> is a call without a mode, \<open>Inl\<close> the error thrown.
  A result \<open>true\<close> returns \<open>v\<close>, the very value passed in.
\<close>

definition parse :: "schema \<Rightarrow> jsval \<Rightarrow> parse_mode option \<Rightarrow> valita_error + jsval" where
  "parse t v opts =
     (let mode = (case opts of Some Strict \<Rightarrow> STRICT | Some Strip \<Rightarrow> STRIP | _ \<Rightarrow> PASS) in
      case func t v mode of
        RTrue \<Rightarrow> Inr v
      | ROk w \<Rightarrow> Inr w
      | RErr r \<Rightarrow> Inl (ValitaError r))"

section \<open>The error's issues and message\<close>

definition issues :: "valita_error \<Rightarrow> issue list" where
  "issues err = (case err of ValitaError issueTree \<Rightarrow> collectIssues issueTree)"

fun code :: "issue_tree \<Rightarrow> string" where
  "code (Prepend k t) = ''prepend''"
| "code (Join l r) = ''join''"
| "code (Invalid_type p e) = ''invalid_type''"
| "code (Invalid_literal p e) = ''invalid_literal''"
| "code (Missing_key p k) = ''missing_key''"
| "code (Unrecognized_key p k) = ''unrecognized_key''"
| "code (Invalid_union p t) = ''invalid_union''"
| "code (Custom_error p e) = ''custom_error''"

text \<open>\<open>list.join(sep)\<close> on strings.\<close>

fun join :: "string \<Rightarrow> string list \<Rightarrow> string" where
  "join sep [] = []"
| "join sep [x] = x"
| "join sep (x # y # ys) = x @ sep @ join sep (y # ys)"

definition orList :: "string list \<Rightarrow> string" where
  "orList list =
     (if length list = 0 then ''nothing''
      else if length list < 2 then last list
      else join '', '' (butlast list) @ '' or '' @ last list)"

text \<open>
  The two conversions of the language the message uses are parameters: \<open>tostr\<close> is
  the conversion to a string (of a template literal and of \<open>join\<close>), \<open>json\<close> is
  \<open>JSON.stringify\<close>.
\<close>

definition formatLiteral :: "(jsval \<Rightarrow> string) \<Rightarrow> (jsval \<Rightarrow> string) \<Rightarrow> jsval \<Rightarrow> string" where
  "formatLiteral tostr json v = (case v of VBig i \<Rightarrow> tostr v @ ''n'' | _ \<Rightarrow> json v)"

fun key_val :: "key \<Rightarrow> jsval" where
  "key_val (KStr s) = VStr s"
| "key_val (KNum n) = VNum (Fin (of_nat n))"

fun key_str :: "(jsval \<Rightarrow> string) \<Rightarrow> key \<Rightarrow> string" where
  "key_str tostr (KStr s) = s"
| "key_str tostr (KNum n) = tostr (key_val (KNum n))"

text \<open>The text between the parentheses of the message.\<close>

fun describe :: "(jsval \<Rightarrow> string) \<Rightarrow> (jsval \<Rightarrow> string) \<Rightarrow> issue \<Rightarrow> string" where
  "describe tostr json (Invalid_type p e) = ''expected '' @ orList e"
| "describe tostr json (Invalid_literal p e) =
     ''expected '' @ orList (map (\<lambda>l. formatLiteral tostr json (lit_val l)) e)"
| "describe tostr json (Missing_key p k) = ''missing key '' @ formatLiteral tostr json (key_val k)"
| "describe tostr json (Unrecognized_key p k) =
     ''unrecognized key '' @ formatLiteral tostr json (key_val k)"
| "describe tostr json (Custom_error p (CEString s)) = s"
| "describe tostr json (Custom_error p (CEObject (Some m) q)) =
     (if m = ''string'' then m else ''validation failed'')"
| "describe tostr json t = ''validation failed''"

definition message_of :: "(jsval \<Rightarrow> string) \<Rightarrow> (jsval \<Rightarrow> string) \<Rightarrow> issue \<Rightarrow> string" where
  "message_of tostr json issue =
     code issue @ '' at .'' @ join ''.'' (map (key_str tostr) (opt_path (issue_path issue)))
       @ '' ('' @ describe tostr json issue @ '')''"

text \<open>
  The getter \<open>message\<close>; \<open>None\<close> is the \<open>TypeError\<close> of reading \<open>issue.path\<close> when
  \<open>this.issues[0]\<close> is \<open>undefined\<close>.
\<close>

definition message :: "(jsval \<Rightarrow> string) \<Rightarrow> (jsval \<Rightarrow> string) \<Rightarrow> valita_error \<Rightarrow> string option" where
  "message tostr json err =
     (case issues err of [] \<Rightarrow> None | issue # _ \<Rightarrow> Some (message_of tostr json issue))"

section \<open>Notions the properties are stated with\<close>

text \<open>The value the loop over the declared keys validates at a key.\<close>

definition val_at :: "(string \<times> jsval) list \<Rightarrow> string \<Rightarrow> jsval" where
  "val_at obj k = (case obj_get obj k of None \<Rightarrow> VNothing | Some v \<Rightarrow> v)"

text \<open>
  The failures an object validation meets, in the order it meets them: first those of
  the rest validator on the undeclared keys (it runs in passthrough mode only), then
  those of the declared keys.
\<close>

definition rest_failures ::
  "string list \<Rightarrow> func option \<Rightarrow> funcmode \<Rightarrow> (string \<times> jsval) list \<Rightarrow> (key \<times> issue_tree) list" where
  "rest_failures keys rest mode obj =
     (case rest of
        None \<Rightarrow> []
      | Some restf \<Rightarrow>
          if mode = PASS then
            concat (map (\<lambda>(k, v).
              if k \<in> set keys then []
              else (case restf v mode of RErr r \<Rightarrow> [(KStr k, r)] | _ \<Rightarrow> [])) obj)
          else [])"

definition key_failures ::
  "funcmode \<Rightarrow> (string \<times> jsval) list \<Rightarrow> (string \<times> func \<times> bool) list \<Rightarrow> (key \<times> issue_tree) list" where
  "key_failures mode obj ks =
     concat (map (\<lambda>(k, f, req).
       case f (val_at obj k) mode of RErr r \<Rightarrow> [(KStr k, r)] | _ \<Rightarrow> []) ks)"

definition failures ::
  "(string \<times> schema) list \<Rightarrow> schema option \<Rightarrow> funcmode \<Rightarrow> (string \<times> jsval) list
    \<Rightarrow> (key \<times> issue_tree) list" where
  "failures shape rest mode obj =
     rest_failures (map fst shape) (map_option func rest) mode obj
     @ key_failures mode obj (map (\<lambda>e. (fst e, func (snd e), \<not> isOptional (snd e))) shape)"

text \<open>The issues of a list of failures, each flattened below its key.\<close>

definition flat_failures :: "(key \<times> issue_tree) list \<Rightarrow> issue list" where
  "flat_failures fs = concat (map (\<lambda>(k, r). collectIssues_aux r [k]) fs)"

text \<open>The issues collected from the issue tree a loop holds, if it holds one.\<close>

definition flatp :: "key list \<Rightarrow> issue_tree option \<Rightarrow> issue list" where
  "flatp p it = (case it of None \<Rightarrow> [] | Some t \<Rightarrow> collectIssues_aux t p)"

text \<open>The keys of an input that the shape does not declare.\<close>

definition undeclared :: "(string \<times> schema) list \<Rightarrow> (string \<times> jsval) list \<Rightarrow> string list" where
  "undeclared shape obj = filter (\<lambda>k. k \<notin> set (map fst shape)) (map fst obj)"

text \<open>The declared keys that are required and that the input lacks.\<close>

definition missing :: "(string \<times> schema) list \<Rightarrow> (string \<times> jsval) list \<Rightarrow> string list" where
  "missing shape obj =
     map fst (filter (\<lambda>e. obj_get obj (fst e) = None \<and> \<not> isOptional (snd e)) shape)"

text \<open>
  No issue of the tree is \<open>missing_key\<close> or \<open>unrecognized_key\<close>, the issues inside an
  \<open>invalid_union\<close> apart, which \<open>collectIssues\<close> does not open. These two are the issues
  with which the validator of an object returns from inside its loops, leaving out the
  issues it holds.
\<close>

fun no_early :: "issue_tree \<Rightarrow> bool" where
  "no_early (Prepend k t) = no_early t"
| "no_early (Join l r) = (no_early l \<and> no_early r)"
| "no_early (Missing_key p k) = False"
| "no_early (Unrecognized_key p k) = False"
| "no_early t = True"

text \<open>
  The declared keys the loop over them validates: those before the first required key
  that the input lacks.
\<close>

definition reached :: "(string \<times> schema) list \<Rightarrow> (string \<times> jsval) list \<Rightarrow> (string \<times> schema) list" where
  "reached shape obj =
     takeWhile (\<lambda>e. \<not> (obj_get obj (fst e) = None \<and> \<not> isOptional (snd e))) shape"

text \<open>
  The failures a validation meets, in the order in which it meets them, each failure
  given by its issues below the path \<open>p\<close>. The validator of an object meets, in strict
  mode, the first undeclared key and nothing else; otherwise the failures of the
  undeclared keys with the rest schema (in passthrough mode, in the order of the
  input's keys), then those of the declared keys in declaration order, up to a missing
  required key. The validator of an array meets the failures of the elements by
  ascending index. A union whose failure is the failure of one of its alternatives
  (the only one it tried, on the value or on the symbol \<open>Nothing\<close>) meets what that
  alternative meets; any other failure of a union is one failure. The failure of a
  transform's own function is one failure, and so is that of every other validator.
\<close>

fun encountered :: "schema \<Rightarrow> funcmode \<Rightarrow> jsval \<Rightarrow> key list \<Rightarrow> issue list list" where
  "encountered (ObjectType shape rest) m v p =
     (case func (ObjectType shape rest) v m of
        RErr t \<Rightarrow>
          (case v of
             VObj obj \<Rightarrow>
               if m = STRICT \<and> undeclared shape obj \<noteq> []
               then [[Unrecognized_key (Some p) (KStr (hd (undeclared shape obj)))]]
               else
                 (case rest of
                    Some r \<Rightarrow>
                      if m = PASS
                      then concat (map (\<lambda>e. encountered r m (snd e) (p @ [KStr (fst e)]))
                             (filter (\<lambda>e. fst e \<notin> set (map fst shape)) obj))
                      else []
                  | None \<Rightarrow> [])
                 @ concat (map (\<lambda>e.
                       if e \<in> set (reached shape obj)
                       then encountered (snd e) m (val_at obj (fst e)) (p @ [KStr (fst e)])
                       else []) shape)
                 @ (case missing shape obj of
                      k # ks \<Rightarrow> [[Missing_key (Some p) (KStr k)]]
                    | [] \<Rightarrow> [])
           | _ \<Rightarrow> [collectIssues_aux t p])
      | _ \<Rightarrow> [])"
| "encountered (ArrayType item) m v p =
     (case func (ArrayType item) v m of
        RErr t \<Rightarrow>
          (case v of
             VArr arr \<Rightarrow>
               concat (map (\<lambda>e. encountered item m (snd e) (p @ [KNum (fst e)]))
                 (List.enumerate 0 arr))
           | _ \<Rightarrow> [collectIssues_aux t p])
      | _ \<Rightarrow> [])"
| "encountered (OptionalType s) m v p =
     (if v = VNothing \<or> v = VUndefined then [] else encountered s m v p)"
| "encountered (TransformType s f) m v p =
     (case func s v m of
        RErr e \<Rightarrow> encountered s m v p
      | RTrue \<Rightarrow> (case f v of RErr e \<Rightarrow> [collectIssues_aux e p] | _ \<Rightarrow> [])
      | ROk w \<Rightarrow> (case f w of RErr e \<Rightarrow> [collectIssues_aux e p] | _ \<Rightarrow> []))"
| "encountered (UnionType opts) m v p =
     (case func (UnionType opts) v m of
        RErr t \<Rightarrow>
          (case find (\<lambda>x. fst x = RErr t)
                  (map (\<lambda>s. (func s v m, encountered s m v p)) opts
                   @ map (\<lambda>s. (func s VNothing m, encountered s m VNothing p)) opts) of
             Some x \<Rightarrow> snd x
           | None \<Rightarrow> [collectIssues_aux t p])
      | _ \<Rightarrow> [])"
| "encountered s m v p =
     (case func s v m of RErr t \<Rightarrow> [collectIssues_aux t p] | _ \<Rightarrow> [])"

text \<open>The issue tree a loop holds, if it holds one, satisfies \<open>no_early\<close>.\<close>

definition no_early_opt :: "issue_tree option \<Rightarrow> bool" where
  "no_early_opt it = (case it of None \<Rightarrow> True | Some t \<Rightarrow> no_early t)"

text \<open>
  The roots a matcher calls for a value, in the order it calls them: the bucket of
  the value and then the catch-alls, or, for the symbol \<open>Nothing\<close>, the \<open>nothings\<close>.
\<close>

definition tried :: "root tables \<Rightarrow> jsval \<Rightarrow> root list" where
  "tried tb v = (if v \<noteq> VNothing then options_for tb v @ unknowns tb else nothings tb)"

text \<open>
  The same roots, read off the list \<open>t\<close> of roots and terminals the matcher is made
  from, which lists the alternatives in declaration order. A terminal is the symbol's
  type, a catch-all, a literal (under the key the \<open>Map\<close> stores it with) or another
  type (under its name).
\<close>

datatype kind = KNothing | KUnknown | KLiteral literal | KBase basetype

fun kind_of :: "schema \<Rightarrow> kind" where
  "kind_of NothingType = KNothing"
| "kind_of UnknownType = KUnknown"
| "kind_of (LiteralType v) = KLiteral (lit_key v)"
| "kind_of t = KBase (name t)"

text \<open>The roots with a terminal of the kind \<open>k\<close>, in the order of \<open>t\<close>.\<close>

definition roots_of :: "('r \<times> schema) list \<Rightarrow> kind \<Rightarrow> 'r list" where
  "roots_of t k = map fst (filter (\<lambda>e. kind_of (snd e) = k) t)"

text \<open>The elements of a list, each at its first occurrence.\<close>

definition firsts :: "'a list \<Rightarrow> 'a list" where
  "firsts xs = rev (remdups (rev xs))"

text \<open>The literals of \<open>t\<close> and the names of its other types, in the order of \<open>t\<close>.\<close>

definition lit_keys :: "('r \<times> schema) list \<Rightarrow> literal list" where
  "lit_keys t =
     firsts (concat (map (\<lambda>e. case kind_of (snd e) of KLiteral l \<Rightarrow> [l] | _ \<Rightarrow> []) t))"

definition type_names :: "('r \<times> schema) list \<Rightarrow> basetype list" where
  "type_names t =
     firsts (concat (map (\<lambda>e. case kind_of (snd e) of KBase ty \<Rightarrow> [ty] | _ \<Rightarrow> []) t))"

text \<open>
  The alternatives of the bucket of a value. When some alternative has a terminal of
  the value's base type: the alternatives with such a terminal in declaration order,
  and after them the alternatives with a literal of that base type, literal by
  literal, whichever literal the value is. Otherwise the alternatives with the literal
  the value is.
\<close>

definition bucket :: "('r \<times> schema) list \<Rightarrow> jsval \<Rightarrow> 'r list" where
  "bucket t v =
     (if toBaseType v \<in> set (type_names t)
      then roots_of t (KBase (toBaseType v))
           @ concat (map (\<lambda>l. roots_of t (KLiteral l))
               (filter (\<lambda>l. toBaseType (lit_val l) = toBaseType v) (lit_keys t)))
      else (case as_literal v of
              Some l \<Rightarrow> roots_of t (KLiteral (lit_key l))
            | None \<Rightarrow> []))"

text \<open>
  The order of the trial: the alternatives of the bucket, each once, at its first
  place, and none of the catch-alls; then the catch-alls, each once. For the symbol
  \<open>Nothing\<close>, the alternatives that accept it, each once.
\<close>

definition trial_order :: "(root \<times> schema) list \<Rightarrow> jsval \<Rightarrow> root list" where
  "trial_order t v =
     (if v \<noteq> VNothing
      then difference fst (dedup fst (bucket t v)) (dedup fst (roots_of t KUnknown))
           @ dedup fst (roots_of t KUnknown)
      else dedup fst (roots_of t KNothing))"

fun is_err :: "result \<Rightarrow> bool" where
  "is_err (RErr e) = True"
| "is_err r = False"

text \<open>The issue trees of the roots called, joined as the loops join them.\<close>

fun joined :: "root list \<Rightarrow> jsval \<Rightarrow> funcmode \<Rightarrow> issue_tree option \<Rightarrow> issue_tree option" where
  "joined [] rootValue mode acc = acc"
| "joined (r # rs) rootValue mode acc =
     (case snd r rootValue mode of
        RErr e \<Rightarrow> joined rs rootValue mode (Some (joinIssues e acc))
      | _ \<Rightarrow> joined rs rootValue mode acc)"




text \<open>The mode of a call of \<open>parse\<close>, and the value it returns when validation succeeds.\<close>

definition mode_of :: "parse_mode option \<Rightarrow> funcmode" where
  "mode_of opts = (case opts of Some Strict \<Rightarrow> STRICT | Some Strip \<Rightarrow> STRIP | _ \<Rightarrow> PASS)"

definition yielded :: "func \<Rightarrow> funcmode \<Rightarrow> jsval \<Rightarrow> jsval" where
  "yielded f m v = (case f v m of ROk w \<Rightarrow> w | _ \<Rightarrow> v)"

definition pval :: "schema \<Rightarrow> funcmode \<Rightarrow> jsval \<Rightarrow> jsval" where
  "pval s m v = yielded (func s) m v"

fun is_ok :: "result \<Rightarrow> bool" where
  "is_ok (ROk w) = True"
| "is_ok r = False"

text \<open>A value all of whose objects have pairwise distinct keys, as every object has.\<close>

fun wfv :: "jsval \<Rightarrow> bool" where
  "wfv (VObj obj) = (distinct (map fst obj) \<and> list_all (\<lambda>e. wfv (snd e)) obj)"
| "wfv (VArr xs) = list_all wfv xs"
| "wfv v = True"

text \<open>
  A validator is settled when it leaves every value it yields as it is: validating a
  value it has yielded succeeds, with that same value. For a transform this is
  idempotence (on the values its validator accepts), for a union that the value
  yielded by an alternative is dispatched to an alternative that keeps it.
\<close>

definition settled :: "funcmode \<Rightarrow> schema \<Rightarrow> bool" where
  "settled m s = (\<forall>v w. func s v m = ROk w \<longrightarrow> func s w m = RTrue \<or> func s w m = ROk w)"

text \<open>
  A schema whose transforms and unions are settled; the declared keys of its objects
  are pairwise distinct, as those of every object are, and none of them is \<open>__proto__\<close>.
  (What is inside a transform or a union is not restricted further.)
\<close>

fun stable :: "funcmode \<Rightarrow> schema \<Rightarrow> bool" where
  "stable m (ObjectType shape rest) =
     (distinct (map fst shape) \<and> ''__proto__'' \<notin> set (map fst shape)
      \<and> list_all (\<lambda>e. stable m (snd e)) shape
      \<and> (case rest of None \<Rightarrow> True | Some r \<Rightarrow> stable m r))"
| "stable m (ArrayType item) = stable m item"
| "stable m (OptionalType t) = stable m t"
| "stable m (TransformType t f) = settled m (TransformType t f)"
| "stable m (UnionType opts) = settled m (UnionType opts)"
| "stable m s = True"

text \<open>
  The validator of an object blanks a declared key. In strict and strip mode without a
  rest schema, it clones \<open>shapeTemplate\<close>, which binds every declared key to
  \<open>undefined\<close>, instead of the input. In strict mode it copies into the clone only the
  keys whose validator yields a new value, so every other declared key stays
  \<open>undefined\<close>. In strip mode, when the input has no undeclared key, it clones at the
  first key whose validator yields a new value, and copies the keys from there on: the
  keys before it stay \<open>undefined\<close>.
\<close>

definition slips ::
  "(string \<times> schema) list \<Rightarrow> schema option \<Rightarrow> funcmode \<Rightarrow> (string \<times> jsval) list \<Rightarrow> bool" where
  "slips shape rest m obj =
     (m \<noteq> PASS \<and> rest = None
      \<and> list_ex (\<lambda>e. is_ok (func (snd e) (val_at obj (fst e)) m)) shape
      \<and> (if m = STRICT
          then list_ex (\<lambda>e. func (snd e) (val_at obj (fst e)) m = RTrue) shape
          else undeclared shape obj = []
               \<and> func (snd (hd shape)) (val_at obj (fst (hd shape))) m = RTrue))"

text \<open>
  This happens in the validation of a value, at an object reached through objects,
  arrays and optionals.
\<close>

fun blanks :: "schema \<Rightarrow> funcmode \<Rightarrow> jsval \<Rightarrow> bool" where
  "blanks (ObjectType shape rest) m v =
     (case v of
        VObj obj \<Rightarrow>
          slips shape rest m obj
          \<or> list_ex (\<lambda>e. blanks (snd e) m (val_at obj (fst e))) shape
          \<or> (case rest of
                Some r \<Rightarrow>
                  m = PASS
                  \<and> list_ex (\<lambda>e. fst e \<notin> set (map fst shape) \<and> blanks r m (snd e)) obj
              | None \<Rightarrow> False)
      | _ \<Rightarrow> False)"
| "blanks (ArrayType item) m v = (case v of VArr xs \<Rightarrow> list_ex (blanks item m) xs | _ \<Rightarrow> False)"
| "blanks (OptionalType t) m v = (v \<noteq> VNothing \<and> v \<noteq> VUndefined \<and> blanks t m v)"
| "blanks s m v = False"

text \<open>The object a loop state stands for: the clone if one was made, else the template.\<close>

definition cur :: "'a \<Rightarrow> 'a option \<Rightarrow> 'a" where
  "cur T out = (case out of None \<Rightarrow> T | Some obj \<Rightarrow> obj)"

section \<open>Evaluating the validators\<close>

lemmas object_defs =
  objectFunc_def finish_def clone_set_def joinIssues_def prependPath_def arrayFunc_def
  isOptional_def obj_get_def object_prototype_def obj_set_def before_def index_of_def is_digit_def
  shapeTemplate_def

lemmas union_defs =
  unionFunc_def flatten_def createObjectMatchers_def createUnionMatcher_def
  findCommonKeys_def is_discriminant_def build_tables_def classify_def empty_tables_def
  map_push_def map_delete_def set_add_def dedup_def difference_def shape_terminals_def
  options_for_def literals_get_def matcher_end_def List.map_filter_def

section \<open>C1: a missing required key ends the validation of an object\<close>

text \<open>
  C1 says that one call reports every failing declared key, required keys that are
  absent included. For \<open>object({a: number(), b: number()})\<close> and the input
  \<open>{a: "x"}\<close> both keys fail: \<open>a\<close> holds a string (the validator of \<open>a\<close> gives
  \<open>invalid_type\<close> for it) and \<open>b\<close> is absent. The loop over the declared keys has joined
  the issue of \<open>a\<close> when it reaches \<open>b\<close>, and returns \<open>missing_key\<close> alone from inside
  the loop: the error thrown has the one issue for \<open>b\<close>, and none for \<open>a\<close>.
\<close>

theorem C1_missing_key_drops_other_issues:
  "func NumberType (VStr ''x'') PASS = RErr (Invalid_type None [''number''])
   \<and> parse (ObjectType [(''a'', NumberType), (''b'', NumberType)] None)
        (VObj [(''a'', VStr ''x'')]) None
      = Inl (ValitaError (Missing_key None (KStr ''b'')))
   \<and> issues (ValitaError (Missing_key None (KStr ''b''))) = [Missing_key (Some []) (KStr ''b'')]"
  by (simp add: object_defs parse_def issues_def collectIssues_def opt_path_def)

section \<open>C7: the path of a nested issue\<close>

text \<open>
  C7: for \<open>object({a: array(object({b: number()}))})\<close> and the input
  \<open>{a: [{b: "x"}]}\<close>, \<open>parse\<close> throws in every mode, and the issues of the error
  are one \<open>invalid_type\<close> issue whose path is \<open>["a", 0, "b"]\<close>.
\<close>

theorem C7_nested_path:
  "parse (ObjectType [(''a'', ArrayType (ObjectType [(''b'', NumberType)] None))] None)
     (VObj [(''a'', VArr [VObj [(''b'', VStr ''x'')]])]) opts
     = Inl (ValitaError
         (Prepend (KStr ''a'') (Prepend (KNum 0) (Prepend (KStr ''b'')
            (Invalid_type None [''number''])))))
   \<and> issues (ValitaError
         (Prepend (KStr ''a'') (Prepend (KNum 0) (Prepend (KStr ''b'')
            (Invalid_type None [''number''])))))
     = [Invalid_type (Some [KStr ''a'', KNum 0, KStr ''b'']) [''number'']]"
proof -
  have "opts = None \<or> opts = Some Passthrough \<or> opts = Some Strict \<or> opts = Some Strip"
    by (cases opts) (auto intro: parse_mode.exhaust)
  then show ?thesis
    by (auto simp: object_defs parse_def issues_def collectIssues_def opt_path_def)
qed

section \<open>C10: literals are compared with strict equality\<close>

text \<open>Nothing is strictly equal to not-a-number.\<close>

lemma strict_eq_NaN: "strict_eq w (LNum NaN) = False"
proof (cases w)
  case (VNum n)
  then show ?thesis by (cases n) simp_all
qed simp_all

text \<open>
  C10: \<open>literal(v).parse(w)\<close> succeeds exactly when \<open>w === v\<close>, and then returns \<open>w\<close>
  itself; otherwise it throws \<open>invalid_literal\<close>. So \<open>literal(NaN)\<close> rejects every
  input, not-a-number included, and \<open>literal(0)\<close> accepts negative zero.
\<close>

theorem C10_literal_strict_equality:
  "parse (LiteralType l) w opts
     = (if strict_eq w l then Inr w else Inl (ValitaError (Invalid_literal None [l])))
   \<and> parse (LiteralType (LNum NaN)) w opts = Inl (ValitaError (Invalid_literal None [LNum NaN]))
   \<and> parse (LiteralType (LNum NaN)) (VNum NaN) opts
        = Inl (ValitaError (Invalid_literal None [LNum NaN]))
   \<and> parse (LiteralType (LNum (Fin 0))) (VNum NegZero) opts = Inr (VNum NegZero)"
  by (simp add: parse_def strict_eq_NaN)

section \<open>The object validator, unfolded\<close>

lemma zip_triples:
  "zip (map fst shape)
     (zip (map (\<lambda>e. func (snd e)) shape) (map (\<lambda>e. \<not> isOptional (snd e)) shape))
     = map (\<lambda>e. (fst e, func (snd e), \<not> isOptional (snd e))) shape"
  by (induction shape) simp_all

lemma func_ObjectType:
  "func (ObjectType shape rest) (VObj obj) mode =
     (let template = (if mode = PASS \<or> rest \<noteq> None then obj
                      else shapeTemplate (map fst shape)) in
      case (if mode = STRICT \<or> mode = STRIP \<or> rest \<noteq> None
            then rest_loop (map fst shape) (map_option func rest) mode template obj (None, None)
            else Inr (None, None)) of
        Inl r \<Rightarrow> r
      | Inr st \<Rightarrow>
          (case keys_loop mode template obj
                  (map (\<lambda>e. (fst e, func (snd e), \<not> isOptional (snd e))) shape) st of
             Inl r \<Rightarrow> r
           | Inr (issueTree, output) \<Rightarrow> finish issueTree (map_option VObj output)))"
  by (simp only: func.simps objectFunc_def zip_triples jsval.case option.map_disc_iff)

section \<open>The loop over the input's keys in strict mode\<close>

lemma rest_loop_strict:
  "find (\<lambda>e. fst e \<notin> set keys) obj = Some (k, x)
   \<Longrightarrow> rest_loop keys rest STRICT template obj st = Inl (RErr (Unrecognized_key None (KStr k)))"
proof (induction obj arbitrary: st)
  case Nil
  then show ?case by simp
next
  case (Cons e es)
  obtain k' v' where e: "e = (k', v')" by (cases e)
  obtain it out where st: "st = (it, out)" by (cases st)
  show ?case
  proof (cases "k' \<in> set keys")
    case True
    with Cons e st show ?thesis by simp
  next
    case False
    with Cons.prems e have "k' = k" by simp
    with False e st show ?thesis by simp
  qed
qed

lemma rest_loop_strict_indep:
  "rest_loop keys rest STRICT template obj st = rest_loop keys rest' STRICT template obj st"
proof (induction obj arbitrary: st)
  case Nil
  then show ?case by simp
next
  case (Cons e es)
  obtain k' v' where e: "e = (k', v')" by (cases e)
  obtain it out where st: "st = (it, out)" by (cases st)
  from Cons.IH show ?case unfolding e st by simp
qed

section \<open>C9: strict mode and a rest schema\<close>

text \<open>
  C9: for an object schema with a rest schema \<open>rt\<close>, parsing in strict mode an input
  that has an undeclared key throws \<open>unrecognized_key\<close> for the first undeclared key
  in the enumeration order of the input. The rest validator is not called in strict
  mode: in this model of pure functions that reads as the result being the same
  whatever rest schema \<open>rt'\<close> stands in the place of \<open>rt\<close>, on every input object.
\<close>

theorem C9_strict_precedes_rest:
  "func (ObjectType shape (Some rt')) (VObj obj) STRICT
     = func (ObjectType shape (Some rt)) (VObj obj) STRICT
   \<and> (find (\<lambda>e. fst e \<notin> set (map fst shape)) obj = Some (k, x) \<longrightarrow>
        parse (ObjectType shape (Some rt)) (VObj obj) (Some Strict)
          = Inl (ValitaError (Unrecognized_key None (KStr k))))"
proof
  show "func (ObjectType shape (Some rt')) (VObj obj) STRICT
          = func (ObjectType shape (Some rt)) (VObj obj) STRICT"
    unfolding func_ObjectType
    using rest_loop_strict_indep
      [of "map fst shape" "Some (func rt')" obj obj "(None, None)" "Some (func rt)"]
    by simp
next
  show "find (\<lambda>e. fst e \<notin> set (map fst shape)) obj = Some (k, x) \<longrightarrow>
        parse (ObjectType shape (Some rt)) (VObj obj) (Some Strict)
          = Inl (ValitaError (Unrecognized_key None (KStr k)))"
  proof
    assume a: "find (\<lambda>e. fst e \<notin> set (map fst shape)) obj = Some (k, x)"
    have "func (ObjectType shape (Some rt)) (VObj obj) STRICT
            = RErr (Unrecognized_key None (KStr k))"
      unfolding func_ObjectType using rest_loop_strict [OF a] by simp
    then show "parse (ObjectType shape (Some rt)) (VObj obj) (Some Strict)
          = Inl (ValitaError (Unrecognized_key None (KStr k)))"
      by (simp add: parse_def)
  qed
qed

theorem C9_strict_precedes_rest_witness:
  "find (\<lambda>e. fst e \<notin> set (map fst [(''a'', NumberType)]))
      [(''a'', VNum (Fin 1)), (''b'', VNum (Fin 5)), (''c'', VNull)]
     = Some (''b'', VNum (Fin 5))
   \<and> parse (ObjectType [(''a'', NumberType)] (Some StringType))
        (VObj [(''a'', VNum (Fin 1)), (''b'', VNum (Fin 5)), (''c'', VNull)]) (Some Strict)
      = Inl (ValitaError (Unrecognized_key None (KStr ''b'')))
   \<and> func (ObjectType [(''a'', NumberType)] (Some NumberType))
        (VObj [(''a'', VNum (Fin 1)), (''b'', VNum (Fin 5)), (''c'', VNull)]) STRICT
      = func (ObjectType [(''a'', NumberType)] (Some StringType))
        (VObj [(''a'', VNum (Fin 1)), (''b'', VNum (Fin 5)), (''c'', VNull)]) STRICT"
  using C9_strict_precedes_rest
    [of "[(''a'', NumberType)]" NumberType
        "[(''a'', VNum (Fin 1)), (''b'', VNum (Fin 5)), (''c'', VNull)]" StringType
        "''b''" "VNum (Fin 5)"]
  by simp

section \<open>The issues the loops of the object validator collect\<close>

lemma collect_join:
  "collectIssues_aux (joinIssues (prependPath k r) it) p = collectIssues_aux r (p @ [k]) @ flatp p it"
  by (cases it) (simp_all add: joinIssues_def prependPath_def flatp_def)

lemma collect_nonempty: "collectIssues_aux t p \<noteq> []"
  by (induction t arbitrary: p) simp_all

lemma key_failures_Cons:
  "key_failures mode obj ((k, f, req) # ks) =
     (case f (val_at obj k) mode of RErr r \<Rightarrow> [(KStr k, r)] | _ \<Rightarrow> []) @ key_failures mode obj ks"
  by (simp add: key_failures_def)

lemma flat_failures_append: "flat_failures (xs @ ys) = flat_failures xs @ flat_failures ys"
  by (simp add: flat_failures_def)

lemma keys_loop_flat:
  "keys_loop mode template obj ks (it, out) = Inr (it', out')
   \<Longrightarrow> flatp [] it' = flat_failures (rev (key_failures mode obj ks)) @ flatp [] it"
proof (induction ks arbitrary: it out)
  case Nil
  then show ?case by (simp add: key_failures_def flat_failures_def)
next
  case (Cons e ks)
  obtain k f req where e: "e = (k, f, req)" by (cases e)
  from Cons.prems e have nm: "\<not> (obj_get obj k = None \<and> req)" by (auto split: if_splits)
  have v: "(case obj_get obj k of None \<Rightarrow> VNothing | Some v \<Rightarrow> v) = val_at obj k"
    by (simp add: val_at_def)
  show ?case
  proof (cases "f (val_at obj k) mode")
    case RTrue
    with Cons.prems e nm v
    have "keys_loop mode template obj ks
            (it, if mode = STRIP \<and> out \<noteq> None then clone_set template out k (val_at obj k) else out)
          = Inr (it', out')"
      by (simp add: Let_def)
    from Cons.IH [OF this] RTrue e show ?thesis
      by (simp add: key_failures_Cons)
  next
    case (ROk w)
    with Cons.prems e nm v
    have "keys_loop mode template obj ks (it, clone_set template out k w) = Inr (it', out')"
      by (simp add: Let_def)
    from Cons.IH [OF this] ROk e show ?thesis
      by (simp add: key_failures_Cons)
  next
    case (RErr r)
    with Cons.prems e nm v
    have "keys_loop mode template obj ks (Some (joinIssues (prependPath (KStr k) r) it), out)
            = Inr (it', out')"
      by (simp add: Let_def)
    from Cons.IH [OF this] RErr e show ?thesis
      by (simp add: key_failures_Cons flat_failures_append flatp_def collect_join [unfolded flatp_def] flat_failures_def)
  qed
qed

lemma keys_loop_missing:
  "keys_loop mode template obj ks st = Inl r
   \<Longrightarrow> \<exists>e \<in> set ks. obj_get obj (fst e) = None \<and> snd (snd e)"
proof (induction ks arbitrary: st)
  case Nil
  then show ?case by simp
next
  case (Cons e ks)
  obtain k f req where e: "e = (k, f, req)" by (cases e)
  obtain it out where st: "st = (it, out)" by (cases st)
  show ?case
  proof (cases "obj_get obj k = None \<and> req")
    case True
    with e show ?thesis by simp
  next
    case False
    with Cons.prems e st obtain st' where "keys_loop mode template obj ks st' = Inl r"
      by (auto simp: Let_def split: result.splits)
    from Cons.IH [OF this] show ?thesis by simp
  qed
qed

lemma rest_loop_unrecognized:
  "rest_loop keys rest mode template obj st = Inl r
   \<Longrightarrow> mode = STRICT \<and> (\<exists>e \<in> set obj. fst e \<notin> set keys)"
proof (induction obj arbitrary: st)
  case Nil
  then show ?case by simp
next
  case (Cons e es)
  obtain k v where e: "e = (k, v)" by (cases e)
  obtain it out where st: "st = (it, out)" by (cases st)
  show ?case
  proof (cases "k \<notin> set keys \<and> mode = STRICT")
    case True
    with e show ?thesis by simp
  next
    case False
    with Cons.prems e st obtain st' where "rest_loop keys rest mode template es st' = Inl r"
      by (auto split: if_splits option.splits result.splits)
    from Cons.IH [OF this] show ?thesis by simp
  qed
qed


lemma rest_loop_pass_none: "rest_loop keys None PASS template obj st = Inr st"
proof (induction obj arbitrary: st)
  case Nil
  then show ?case by simp
next
  case (Cons e es)
  obtain k v where e: "e = (k, v)" by (cases e)
  obtain it out where st: "st = (it, out)" by (cases st)
  from Cons.IH show ?case unfolding e st by simp
qed

lemma func_ObjectType_loops:
  "func (ObjectType shape rest) (VObj obj) mode =
     (case rest_loop (map fst shape) (map_option func rest) mode
             (if mode = PASS \<or> rest \<noteq> None then obj
              else shapeTemplate (map fst shape)) obj (None, None) of
        Inl r \<Rightarrow> r
      | Inr st \<Rightarrow>
          (case keys_loop mode
                  (if mode = PASS \<or> rest \<noteq> None then obj
                   else shapeTemplate (map fst shape)) obj
                  (map (\<lambda>e. (fst e, func (snd e), \<not> isOptional (snd e))) shape) st of
             Inl r \<Rightarrow> r
           | Inr (issueTree, output) \<Rightarrow> finish issueTree (map_option VObj output)))"
proof (cases "mode = PASS \<and> rest = None")
  case True
  then show ?thesis
    by (simp add: func_ObjectType rest_loop_pass_none del: func.simps)
next
  case False
  then have c: "mode = STRICT \<or> mode = STRIP \<or> rest \<noteq> None"
    by (cases mode) auto
  show ?thesis
    unfolding func_ObjectType Let_def by (simp only: c if_True)
qed

lemma missing_empty:
  "missing shape obj = []
   \<Longrightarrow> \<not> (\<exists>e \<in> set (map (\<lambda>e. (fst e, func (snd e), \<not> isOptional (snd e))) shape).
          obj_get obj (fst e) = None \<and> snd (snd e))"
  by (auto simp: missing_def filter_empty_conv)

lemma undeclared_empty:
  "undeclared shape obj = [] \<Longrightarrow> \<not> (\<exists>e \<in> set obj. fst e \<notin> set (map fst shape))"
  by (auto simp: undeclared_def filter_empty_conv)

lemma message_first:
  "message tostr json (ValitaError t) = Some (message_of tostr json (hd (collectIssues t)))"
proof -
  have "collectIssues t \<noteq> []" by (simp add: collectIssues_def collect_nonempty)
  then show ?thesis
    by (cases "collectIssues t") (simp_all add: message_def issues_def)
qed

section \<open>The failures a validation meets, and the issue tree\<close>

lemma func_OptionalType:
  "func (OptionalType t) v m = (if v = VNothing \<or> v = VUndefined then RTrue else func t v m)"
  by simp

lemma func_TransformType:
  "func (TransformType t f) v m =
     (case func t v m of RErr e \<Rightarrow> RErr e | RTrue \<Rightarrow> f v | ROk w \<Rightarrow> f w)"
  by simp

lemma enc_ok: "\<not> is_err (func s v m) \<Longrightarrow> encountered s m v p = []"
  by (induction s arbitrary: v)
    (auto split: result.splits simp: func_OptionalType func_TransformType simp del: func.simps)

lemma no_early_join:
  "no_early_opt (Some (joinIssues (prependPath k r) it)) = (no_early r \<and> no_early_opt it)"
  by (cases it) (simp_all add: no_early_opt_def joinIssues_def prependPath_def)

lemma array_loop_met:
  assumes IH: "\<And>x t p. func item x m = RErr t \<Longrightarrow> no_early t
                 \<Longrightarrow> collectIssues_aux t p = concat (rev (encountered item m x p))"
  shows "array_loop (func item) m arr i xs (it, out) = (it', out') \<Longrightarrow> no_early_opt it'
     \<Longrightarrow> flatp p it'
          = concat (rev (concat (map (\<lambda>e. encountered item m (snd e) (p @ [KNum (fst e)]))
                (List.enumerate i xs)))) @ flatp p it
        \<and> no_early_opt it"
proof (induction xs arbitrary: i it out)
  case Nil
  then show ?case by simp
next
  case (Cons x xs)
  show ?case
  proof (cases "func item x m")
    case RTrue
    with Cons.prems have "array_loop (func item) m arr (Suc i) xs (it, out) = (it', out')" by simp
    from Cons.IH [OF this Cons.prems(2)] RTrue show ?thesis
      by (simp add: enc_ok)
  next
    case (ROk w)
    with Cons.prems
    have "array_loop (func item) m arr (Suc i) xs
            (it, Some ((case out of None \<Rightarrow> arr | Some out \<Rightarrow> out)[i := w])) = (it', out')"
      by simp
    from Cons.IH [OF this Cons.prems(2)] ROk show ?thesis
      by (simp add: enc_ok)
  next
    case (RErr r)
    with Cons.prems
    have "array_loop (func item) m arr (Suc i) xs
            (Some (joinIssues (prependPath (KNum i) r) it), out) = (it', out')"
      by simp
    from Cons.IH [OF this Cons.prems(2)]
    have step: "flatp p it'
          = concat (rev (concat (map (\<lambda>e. encountered item m (snd e) (p @ [KNum (fst e)]))
                (List.enumerate (Suc i) xs))))
            @ flatp p (Some (joinIssues (prependPath (KNum i) r) it))"
      and ne: "no_early r" "no_early_opt it"
      by (simp_all add: no_early_join)
    from IH [OF RErr ne(1)] step ne show ?thesis
      by (simp add: flatp_def collect_join)
  qed
qed

lemma keys_loop_met:
  assumes IH: "\<And>e v t p. e \<in> set sh \<Longrightarrow> func (snd e) v m = RErr t \<Longrightarrow> no_early t
                 \<Longrightarrow> collectIssues_aux t p = concat (rev (encountered (snd e) m v p))"
  shows "keys_loop m template obj (map (\<lambda>e. (fst e, func (snd e), \<not> isOptional (snd e))) sh) (it, out)
           = Inr (it', out')
     \<Longrightarrow> no_early_opt it'
     \<Longrightarrow> flatp p it'
          = concat (rev (concat (map (\<lambda>e. encountered (snd e) m (val_at obj (fst e)) (p @ [KStr (fst e)]))
                sh))) @ flatp p it
        \<and> no_early_opt it"
  using IH
proof (induction sh arbitrary: it out)
  case Nil
  then show ?case by simp
next
  case (Cons e sh)
  obtain k s where e: "e = (k, s)" by (cases e)
  have IH': "\<And>e v t p. e \<in> set sh \<Longrightarrow> func (snd e) v m = RErr t \<Longrightarrow> no_early t
                 \<Longrightarrow> collectIssues_aux t p = concat (rev (encountered (snd e) m v p))"
    using Cons.prems(3) by simp
  have IHe: "\<And>v t p. func s v m = RErr t \<Longrightarrow> no_early t
                 \<Longrightarrow> collectIssues_aux t p = concat (rev (encountered s m v p))"
    using Cons.prems(3) [of e] e by simp
  from Cons.prems(1) e have nm: "\<not> (obj_get obj k = None \<and> \<not> isOptional s)"
    by (auto split: if_splits)
  have v: "(case obj_get obj k of None \<Rightarrow> VNothing | Some v \<Rightarrow> v) = val_at obj k"
    by (simp add: val_at_def)
  let ?ks = "map (\<lambda>e. (fst e, func (snd e), \<not> isOptional (snd e))) sh"
  show ?case
  proof (cases "func s (val_at obj k) m")
    case RTrue
    with Cons.prems(1) e nm v
    have "keys_loop m template obj ?ks
            (it, if m = STRIP \<and> out \<noteq> None then clone_set template out k (val_at obj k) else out)
          = Inr (it', out')"
      by (simp add: Let_def del: func.simps)
    from Cons.IH [OF this Cons.prems(2) IH'] RTrue e show ?thesis
      by (simp add: enc_ok del: func.simps)
  next
    case (ROk w)
    with Cons.prems(1) e nm v
    have "keys_loop m template obj ?ks (it, clone_set template out k w) = Inr (it', out')"
      by (simp add: Let_def del: func.simps)
    from Cons.IH [OF this Cons.prems(2) IH'] ROk e show ?thesis
      by (simp add: enc_ok del: func.simps)
  next
    case (RErr r)
    with Cons.prems(1) e nm v
    have "keys_loop m template obj ?ks (Some (joinIssues (prependPath (KStr k) r) it), out)
          = Inr (it', out')"
      by (simp add: Let_def del: func.simps)
    from Cons.IH [OF this Cons.prems(2) IH']
    have step: "flatp p it'
          = concat (rev (concat (map (\<lambda>e. encountered (snd e) m (val_at obj (fst e)) (p @ [KStr (fst e)]))
                sh))) @ flatp p (Some (joinIssues (prependPath (KStr k) r) it))"
      and ne: "no_early r" "no_early_opt it"
      by (simp_all add: no_early_join)
    from IHe [OF RErr ne(1)] step ne e show ?thesis
      by (simp add: flatp_def collect_join del: func.simps)
  qed
qed

lemma rest_loop_met:
  assumes IH: "\<And>v t p. func r v PASS = RErr t \<Longrightarrow> no_early t
                 \<Longrightarrow> collectIssues_aux t p = concat (rev (encountered r PASS v p))"
  shows "rest_loop keys (Some (func r)) PASS template es (it, out) = Inr (it', out')
     \<Longrightarrow> no_early_opt it'
     \<Longrightarrow> flatp p it'
          = concat (rev (concat (map (\<lambda>e. encountered r PASS (snd e) (p @ [KStr (fst e)]))
                (filter (\<lambda>e. fst e \<notin> set keys) es)))) @ flatp p it
        \<and> no_early_opt it"
proof (induction es arbitrary: it out)
  case Nil
  then show ?case by simp
next
  case (Cons e es)
  obtain k x where e: "e = (k, x)" by (cases e)
  show ?case
  proof (cases "k \<in> set keys")
    case True
    with Cons.prems(1) e
    have "rest_loop keys (Some (func r)) PASS template es (it, out) = Inr (it', out')" by simp
    from Cons.IH [OF this Cons.prems(2)] True e show ?thesis by simp
  next
    case False
    show ?thesis
    proof (cases "func r x PASS")
      case RTrue
      with Cons.prems(1) e False
      have "rest_loop keys (Some (func r)) PASS template es (it, out) = Inr (it', out')" by simp
      from Cons.IH [OF this Cons.prems(2)] RTrue False e show ?thesis
        by (simp add: enc_ok)
    next
      case (ROk w)
      with Cons.prems(1) e False
      have "rest_loop keys (Some (func r)) PASS template es (it, clone_set template out k w)
              = Inr (it', out')" by simp
      from Cons.IH [OF this Cons.prems(2)] ROk False e show ?thesis
        by (simp add: enc_ok)
    next
      case (RErr t)
      with Cons.prems(1) e False
      have "rest_loop keys (Some (func r)) PASS template es
              (Some (joinIssues (prependPath (KStr k) t) it), out) = Inr (it', out')" by simp
      from Cons.IH [OF this Cons.prems(2)]
      have step: "flatp p it'
          = concat (rev (concat (map (\<lambda>e. encountered r PASS (snd e) (p @ [KStr (fst e)]))
                (filter (\<lambda>e. fst e \<notin> set keys) es))))
            @ flatp p (Some (joinIssues (prependPath (KStr k) t) it))"
        and ne: "no_early t" "no_early_opt it"
        by (simp_all add: no_early_join)
      from IH [OF RErr ne(1)] step ne e False show ?thesis
        by (simp add: flatp_def collect_join)
    qed
  qed
qed

lemma rest_loop_keeps_issues:
  "rest_loop keys rest mode template es (it, out) = Inr (it', out')
   \<Longrightarrow> mode \<noteq> PASS \<or> rest = None \<Longrightarrow> it' = it"
proof (induction es arbitrary: out)
  case Nil
  then show ?case by simp
next
  case (Cons e es)
  obtain k x where e: "e = (k, x)" by (cases e)
  show ?case
  proof (cases "k \<notin> set keys \<and> mode = STRIP")
    case True
    with Cons.prems e show ?thesis by simp
  next
    case False
    with Cons.prems e obtain out1 where
      "rest_loop keys rest mode template es (it, out1) = Inr (it', out')"
      by (cases mode) (auto split: if_splits option.splits)
    from Cons.IH [OF this Cons.prems(2)] show ?thesis .
  qed
qed

lemma rest_loop_Inl_form:
  "rest_loop keys rest mode template es st = Inl r
   \<Longrightarrow> \<exists>k. r = RErr (Unrecognized_key None (KStr k))"
proof (induction es arbitrary: st)
  case Nil
  then show ?case by simp
next
  case (Cons e es)
  obtain k x where e: "e = (k, x)" by (cases e)
  obtain it out where st: "st = (it, out)" by (cases st)
  show ?case
  proof (cases "k \<notin> set keys \<and> mode = STRICT")
    case True
    with Cons.prems e st show ?thesis by auto
  next
    case False
    with Cons.prems e st obtain st' where "rest_loop keys rest mode template es st' = Inl r"
      by (auto split: if_splits option.splits result.splits)
    from Cons.IH [OF this] show ?thesis .
  qed
qed

lemma keys_loop_Inl_form:
  "keys_loop mode template obj ks st = Inl r
   \<Longrightarrow> \<exists>k. r = RErr (Missing_key None (KStr k))"
proof (induction ks arbitrary: st)
  case Nil
  then show ?case by simp
next
  case (Cons e ks)
  obtain k f req where e: "e = (k, f, req)" by (cases e)
  obtain it out where st: "st = (it, out)" by (cases st)
  show ?case
  proof (cases "obj_get obj k = None \<and> req")
    case True
    with Cons.prems e st show ?thesis by auto
  next
    case False
    with Cons.prems e st obtain st' where "keys_loop mode template obj ks st' = Inl r"
      by (auto simp: Let_def split: result.splits)
    from Cons.IH [OF this] show ?thesis .
  qed
qed

lemma keys_loop_Inr_present:
  "keys_loop mode template obj ks st = Inr st'
   \<Longrightarrow> \<forall>e \<in> set ks. \<not> (obj_get obj (fst e) = None \<and> snd (snd e))"
proof (induction ks arbitrary: st)
  case Nil
  then show ?case by simp
next
  case (Cons e ks)
  obtain k f req where e: "e = (k, f, req)" by (cases e)
  obtain it out where st: "st = (it, out)" by (cases st)
  from Cons.prems e st have nm: "\<not> (obj_get obj k = None \<and> req)" by (auto split: if_splits)
  with Cons.prems e st obtain st1 where "keys_loop mode template obj ks st1 = Inr st'"
    by (auto simp: Let_def split: result.splits)
  from Cons.IH [OF this] nm e show ?case by simp
qed

lemma rest_loop_Inr_strict:
  "rest_loop keys rest STRICT template obj st = Inr st' \<Longrightarrow> \<forall>e \<in> set obj. fst e \<in> set keys"
proof (rule ccontr)
  assume r: "rest_loop keys rest STRICT template obj st = Inr st'"
    and "\<not> (\<forall>e \<in> set obj. fst e \<in> set keys)"
  then obtain y where "find (\<lambda>e. fst e \<notin> set keys) obj = Some y"
    by (cases "find (\<lambda>e. fst e \<notin> set keys) obj") (auto simp: find_None_iff)
  then have "find (\<lambda>e. fst e \<notin> set keys) obj = Some (fst y, snd y)" by simp
  from rest_loop_strict [OF this, of rest template st] r show False by simp
qed

lemma find_holds: "find P xs = Some x \<Longrightarrow> P x \<and> x \<in> set xs"
  by (induction xs) (auto split: if_splits)

lemma reached_all:
  "\<forall>e \<in> set shape. \<not> (obj_get obj (fst e) = None \<and> \<not> isOptional (snd e))
   \<Longrightarrow> reached shape obj = shape \<and> missing shape obj = []"
  by (auto simp: reached_def missing_def takeWhile_eq_all_conv filter_empty_conv)

lemma object_met:
  assumes IHk: "\<And>e v t p. e \<in> set shape \<Longrightarrow> func (snd e) v m = RErr t \<Longrightarrow> no_early t
                 \<Longrightarrow> collectIssues_aux t p = concat (rev (encountered (snd e) m v p))"
    and IHr: "\<And>r v t p. rest = Some r \<Longrightarrow> func r v m = RErr t \<Longrightarrow> no_early t
                 \<Longrightarrow> collectIssues_aux t p = concat (rev (encountered r m v p))"
    and res: "func (ObjectType shape rest) (VObj obj) m = RErr t"
    and ne: "no_early t"
  shows "collectIssues_aux t p = concat (rev (encountered (ObjectType shape rest) m (VObj obj) p))"
proof -
  let ?template = "if m = PASS \<or> rest \<noteq> None then obj else shapeTemplate (map fst shape)"
  let ?ks = "map (\<lambda>e. (fst e, func (snd e), \<not> isOptional (snd e))) shape"
  let ?K = "concat (map (\<lambda>e. encountered (snd e) m (val_at obj (fst e)) (p @ [KStr (fst e)])) shape)"
  let ?R = "case rest of
              Some r \<Rightarrow>
                if m = PASS
                then concat (map (\<lambda>e. encountered r m (snd e) (p @ [KStr (fst e)]))
                       (filter (\<lambda>e. fst e \<notin> set (map fst shape)) obj))
                else []
            | None \<Rightarrow> []"
  obtain it1 out1 where r1:
    "rest_loop (map fst shape) (map_option func rest) m ?template obj (None, None) = Inr (it1, out1)"
  proof (cases "rest_loop (map fst shape) (map_option func rest) m ?template obj (None, None)")
    case (Inl r)
    from rest_loop_Inl_form [OF Inl] Inl res ne show ?thesis
      by (auto simp: func_ObjectType_loops simp del: func.simps)
  next
    case (Inr st)
    with that show ?thesis by (cases st) auto
  qed
  obtain it2 out2 where r2: "keys_loop m ?template obj ?ks (it1, out1) = Inr (it2, out2)"
  proof (cases "keys_loop m ?template obj ?ks (it1, out1)")
    case (Inl r)
    from keys_loop_Inl_form [OF Inl] Inl r1 res ne show ?thesis
      by (auto simp: func_ObjectType_loops simp del: func.simps)
  next
    case (Inr st)
    with that show ?thesis by (cases st) auto
  qed
  from res r1 r2 have "finish it2 (map_option VObj out2) = RErr t"
    by (simp add: func_ObjectType_loops del: func.simps)
  then have it2: "it2 = Some t"
    by (simp add: finish_def split: option.splits)
  from ne it2 have ne2: "no_early_opt it2" by (simp add: no_early_opt_def)
  from keys_loop_met [OF IHk r2 ne2, of p] it2
  have k: "collectIssues_aux t p = concat (rev ?K) @ flatp p it1" and ne1: "no_early_opt it1"
    by (simp_all add: flatp_def)
  have r: "flatp p it1 = concat (rev ?R)"
  proof (cases "m = PASS \<and> rest \<noteq> None")
    case True
    then obtain r where rest: "rest = Some r" and m: "m = PASS" by auto
    from r1 rest m
    have "rest_loop (map fst shape) (Some (func r)) PASS obj obj (None, None) = Inr (it1, out1)"
      by simp
    from rest_loop_met [OF IHr [OF rest, unfolded m] this ne1, of p] rest m show ?thesis
      by (simp add: flatp_def)
  next
    case False
    then have "m \<noteq> PASS \<or> map_option func rest = None" by auto
    from rest_loop_keeps_issues [OF r1 this] False show ?thesis
      by (auto simp: flatp_def split: option.splits)
  qed
  have present: "\<forall>e \<in> set shape. \<not> (obj_get obj (fst e) = None \<and> \<not> isOptional (snd e))"
    using keys_loop_Inr_present [OF r2] by simp
  have strict: "\<not> (m = STRICT \<and> undeclared shape obj \<noteq> [])"
  proof
    assume a: "m = STRICT \<and> undeclared shape obj \<noteq> []"
    with r1 have "rest_loop (map fst shape) (map_option func rest) STRICT ?template obj (None, None)
        = Inr (it1, out1)" by simp
    from rest_loop_Inr_strict [OF this] a show False
      by (auto simp: undeclared_def filter_empty_conv)
  qed
  have "encountered (ObjectType shape rest) m (VObj obj) p = ?R @ ?K"
    using res strict reached_all [OF present]
    by (auto simp del: func.simps cong: map_cong)
  with k r show ?thesis by simp
qed

lemma issues_met:
  "func s v m = RErr t \<Longrightarrow> no_early t
   \<Longrightarrow> collectIssues_aux t p = concat (rev (encountered s m v p))"
proof (induction s arbitrary: v t p rule: func.induct)
  case (10 shape rest)
  show ?case
  proof (cases v)
    case (VObj obj)
    from object_met [OF "10.IH"(1) "10.IH"(2) "10.prems" [unfolded VObj]] VObj
    show ?thesis by blast
  qed (use "10.prems" in \<open>simp_all add: objectFunc_def\<close>)
next
  case (11 item)
  show ?case
  proof (cases v)
    case (VArr arr)
    obtain it out where l: "array_loop (func item) m arr 0 arr (None, None) = (it, out)"
      by (cases "array_loop (func item) m arr 0 arr (None, None)")
    with "11.prems" VArr have "finish it (map_option VArr out) = RErr t"
      by (simp add: arrayFunc_def)
    then have it: "it = Some t" by (simp add: finish_def split: option.splits)
    with "11.prems" have "no_early_opt it" by (simp add: no_early_opt_def)
    from array_loop_met [OF "11.IH" l this, of p] it "11.prems" VArr show ?thesis
      by (simp add: flatp_def del: func.simps)
  qed (use "11.prems" in \<open>simp_all add: arrayFunc_def\<close>)
next
  case (12 opts)
  let ?xs = "map (\<lambda>s. (func s v m, encountered s m v p)) opts
                   @ map (\<lambda>s. (func s VNothing m, encountered s m VNothing p)) opts"
  show ?case
  proof (cases "find (\<lambda>x. fst x = RErr t) ?xs")
    case None
    with "12.prems" show ?thesis by (simp del: func.simps)
  next
    case (Some x)
    from find_holds [OF Some] obtain s where s: "s \<in> set opts"
      and c: "func s v m = RErr t \<and> snd x = encountered s m v p
              \<or> func s VNothing m = RErr t \<and> snd x = encountered s m VNothing p"
      by auto
    from c "12.IH" [OF s _ "12.prems"(2)] have "collectIssues_aux t p = concat (rev (snd x))"
      by auto
    with Some "12.prems" show ?thesis by (simp del: func.simps)
  qed
next
  case (13 s)
  show ?case
  proof (cases "v = VNothing \<or> v = VUndefined")
    case True
    with "13.prems" show ?thesis by simp
  next
    case False
    with "13.prems" have "func s v m = RErr t" by simp
    from "13.IH" [OF False this "13.prems"(2)] False show ?thesis by simp
  qed
next
  case (14 s f)
  show ?case
  proof (cases "func s v m")
    case (RErr e)
    with "14.prems" have "func s v m = RErr t" by simp
    from "14.IH" [OF this "14.prems"(2)] RErr show ?thesis by simp
  qed (use "14.prems" in simp_all)
qed simp_all

section \<open>C2: the order of the flattened issues\<close>

text \<open>
  C2 says that the flattened issues are in the order in which validation met the
  failures. The validators of objects and arrays join each new failure to the left of
  the issues they hold (\<open>joinIssues(prependPath(key, r), issueTree)\<close>), and
  \<open>collectIssues\<close> reads the tree from the left, so the list is in the reverse order, at
  every level.

  As amended: when the error has no \<open>missing_key\<close> and no \<open>unrecognized_key\<close> issue
  (with either of them the validator of an object returns at once and leaves out the
  issues it holds), the flattened issues are those of the failures validation met,
  depth-first, in the reverse of the order in which it met them: at every object the
  declared keys in reverse declaration order and after them the undeclared keys that
  fail the rest schema, last key first; at every array the elements from the highest
  index down. So for declared keys \<open>a\<close> before \<open>b\<close> that both fail, the issues at \<open>b\<close>
  precede the issues at \<open>a\<close>. The message of the error is that of the first issue of
  the list, which is an issue of the failure met last.
\<close>

theorem C2_issues_in_reverse_order:
  assumes res: "parse s v opts = Inl (ValitaError t)"
    and ne: "no_early t"
  shows "issues (ValitaError t)
           = concat (rev (encountered s
               (case opts of Some Strict \<Rightarrow> STRICT | Some Strip \<Rightarrow> STRIP | _ \<Rightarrow> PASS) v []))
       \<and> message tostr json (ValitaError t)
           = Some (message_of tostr json (hd (issues (ValitaError t))))"
proof
  let ?m = "case opts of Some Strict \<Rightarrow> STRICT | Some Strip \<Rightarrow> STRIP | _ \<Rightarrow> PASS"
  from res have "func s v ?m = RErr t"
    by (simp add: parse_def Let_def split: result.splits)
  from issues_met [OF this ne, of "[]"]
  show "issues (ValitaError t) = concat (rev (encountered s ?m v []))"
    by (simp add: issues_def collectIssues_def)
next
  show "message tostr json (ValitaError t)
          = Some (message_of tostr json (hd (issues (ValitaError t))))"
    using message_first [of tostr json t] by (simp add: issues_def)
qed

theorem C2_issues_in_reverse_order_witness:
  "parse (ObjectType [(''a'', ArrayType NumberType), (''b'', BooleanType)] (Some StringType))
     (VObj [(''z'', VNull), (''a'', VArr [VStr ''x'', VNum (Fin 1), VStr ''y'']), (''b'', VNum (Fin 1))])
     None
     = Inl (ValitaError
         (Join (Prepend (KStr ''b'') (Invalid_type None [''boolean'']))
            (Join (Prepend (KStr ''a'')
                     (Join (Prepend (KNum 2) (Invalid_type None [''number'']))
                        (Prepend (KNum 0) (Invalid_type None [''number'']))))
               (Prepend (KStr ''z'') (Invalid_type None [''string''])))))
   \<and> no_early
         (Join (Prepend (KStr ''b'') (Invalid_type None [''boolean'']))
            (Join (Prepend (KStr ''a'')
                     (Join (Prepend (KNum 2) (Invalid_type None [''number'']))
                        (Prepend (KNum 0) (Invalid_type None [''number'']))))
               (Prepend (KStr ''z'') (Invalid_type None [''string'']))))
   \<and> encountered (ObjectType [(''a'', ArrayType NumberType), (''b'', BooleanType)] (Some StringType))
        PASS
        (VObj [(''z'', VNull), (''a'', VArr [VStr ''x'', VNum (Fin 1), VStr ''y'']), (''b'', VNum (Fin 1))])
        []
      = [[Invalid_type (Some [KStr ''z'']) [''string'']],
         [Invalid_type (Some [KStr ''a'', KNum 0]) [''number'']],
         [Invalid_type (Some [KStr ''a'', KNum 2]) [''number'']],
         [Invalid_type (Some [KStr ''b'']) [''boolean'']]]
   \<and> issues (ValitaError
         (Join (Prepend (KStr ''b'') (Invalid_type None [''boolean'']))
            (Join (Prepend (KStr ''a'')
                     (Join (Prepend (KNum 2) (Invalid_type None [''number'']))
                        (Prepend (KNum 0) (Invalid_type None [''number'']))))
               (Prepend (KStr ''z'') (Invalid_type None [''string''])))))
      = [Invalid_type (Some [KStr ''b'']) [''boolean''],
         Invalid_type (Some [KStr ''a'', KNum 2]) [''number''],
         Invalid_type (Some [KStr ''a'', KNum 0]) [''number''],
         Invalid_type (Some [KStr ''z'']) [''string'']]
   \<and> message (\<lambda>v. []) (\<lambda>v. [])
        (ValitaError
         (Join (Prepend (KStr ''b'') (Invalid_type None [''boolean'']))
            (Join (Prepend (KStr ''a'')
                     (Join (Prepend (KNum 2) (Invalid_type None [''number'']))
                        (Prepend (KNum 0) (Invalid_type None [''number'']))))
               (Prepend (KStr ''z'') (Invalid_type None [''string''])))))
      = Some ''invalid_type at .b (expected boolean)''"
proof -
  let ?s = "ObjectType [(''a'', ArrayType NumberType), (''b'', BooleanType)] (Some StringType)"
  let ?v = "VObj [(''z'', VNull), (''a'', VArr [VStr ''x'', VNum (Fin 1), VStr ''y'']), (''b'', VNum (Fin 1))]"
  let ?t = "Join (Prepend (KStr ''b'') (Invalid_type None [''boolean'']))
            (Join (Prepend (KStr ''a'')
                     (Join (Prepend (KNum 2) (Invalid_type None [''number'']))
                        (Prepend (KNum 0) (Invalid_type None [''number'']))))
               (Prepend (KStr ''z'') (Invalid_type None [''string''])))"
  have fs: "func ?s ?v PASS = RErr ?t"
    by (simp add: object_defs numeral_2_eq_2)
  then have res: "parse ?s ?v None = Inl (ValitaError ?t)"
    by (simp add: parse_def del: func.simps)
  have ne: "no_early ?t" by simp
  have enc: "encountered ?s PASS ?v []
      = [[Invalid_type (Some [KStr ''z'']) [''string'']],
         [Invalid_type (Some [KStr ''a'', KNum 0]) [''number'']],
         [Invalid_type (Some [KStr ''a'', KNum 2]) [''number'']],
         [Invalid_type (Some [KStr ''b'']) [''boolean'']]]"
    by (simp add: object_defs reached_def missing_def val_at_def undeclared_def opt_path_def
        numeral_2_eq_2)
  note c = C2_issues_in_reverse_order [OF res ne, of "\<lambda>v. []" "\<lambda>v. []"]
  from c [THEN conjunct1] c [THEN conjunct2] res ne enc
  show ?thesis
    by (simp add: message_of_def orList_def opt_path_def del: func.simps encountered.simps)
qed

text \<open>
  The claim as stated fails for \<open>object({a: number(), b: number()})\<close> and the input
  \<open>{a: "x", b: "y"}\<close>: the issue at \<open>b\<close> is the first of the list, the issue at \<open>a\<close>
  the second.
\<close>

theorem C2_declaration_order_counterexample:
  "parse (ObjectType [(''a'', NumberType), (''b'', NumberType)] None)
     (VObj [(''a'', VStr ''x''), (''b'', VStr ''y'')]) None
     = Inl (ValitaError (Join (Prepend (KStr ''b'') (Invalid_type None [''number'']))
         (Prepend (KStr ''a'') (Invalid_type None [''number'']))))
   \<and> issues (ValitaError (Join (Prepend (KStr ''b'') (Invalid_type None [''number'']))
         (Prepend (KStr ''a'') (Invalid_type None [''number'']))))
     = [Invalid_type (Some [KStr ''b'']) [''number''],
        Invalid_type (Some [KStr ''a'']) [''number'']]"
  by (simp add: object_defs parse_def issues_def collectIssues_def opt_path_def)

section \<open>The clone of strip mode\<close>

lemma rest_loop_strip:
  "\<exists>e \<in> set obj. fst e \<notin> set keys
   \<Longrightarrow> rest_loop keys rest STRIP template obj (it, out) = Inr (it, Some template)"
proof (induction obj)
  case Nil
  then show ?case by simp
next
  case (Cons e es)
  obtain k v where e: "e = (k, v)" by (cases e)
  show ?case
  proof (cases "k \<in> set keys")
    case True
    with Cons e show ?thesis by simp
  next
    case False
    with e show ?thesis by simp
  qed
qed

lemma map_of_replace_key:
  "map_of out k \<noteq> None
   \<Longrightarrow> map_of (replace_key out k v) k' = (if k' = k then Some v else map_of out k')"
  by (induction out) auto

lemma map_of_insert_key:
  "map_of out k = None
   \<Longrightarrow> map_of (insert_key out k v) k' = (if k' = k then Some v else map_of out k')"
  by (induction out) (auto split: if_splits)

lemma map_of_obj_set:
  "map_of (obj_set out k v) k' =
     (if k' = k \<and> (k \<noteq> ''__proto__'' \<or> map_of out k \<noteq> None) then Some v else map_of out k')"
  by (simp add: obj_set_def map_of_replace_key map_of_insert_key)

lemma obj_get_None: "obj_get obj k = None \<Longrightarrow> map_of obj k = None \<and> k \<noteq> ''__proto__''"
  by (auto simp: obj_get_def object_prototype_def split: option.splits)

lemma keys_loop_strip_keeps:
  "keys_loop STRIP template obj ks (it, Some out) = Inr (it', out')
   \<Longrightarrow> k \<notin> fst ` set ks
   \<Longrightarrow> \<exists>res. out' = Some res \<and> map_of res k = map_of out k"
proof (induction ks arbitrary: it out)
  case Nil
  then show ?case by auto
next
  case (Cons e ks)
  obtain k1 f req where e: "e = (k1, f, req)" by (cases e)
  from Cons.prems e have nm: "\<not> (obj_get obj k1 = None \<and> req)" by (auto split: if_splits)
  from Cons.prems e have ne: "k \<noteq> k1" and notin: "k \<notin> fst ` set ks" by auto
  from Cons.prems(1) e nm obtain it1 out1 where
    step: "keys_loop STRIP template obj ks (it1, Some out1) = Inr (it', out')"
    and keep: "map_of out1 k = map_of out k"
    using ne
    by (auto simp: Let_def clone_set_def map_of_obj_set split: result.splits)
  from Cons.IH [OF step notin] keep show ?case by simp
qed

lemma keys_loop_strip_nothing:
  "keys_loop STRIP template obj ks (it, Some out) = Inr (it', out')
   \<Longrightarrow> distinct (map fst ks)
   \<Longrightarrow> (k, f, req) \<in> set ks
   \<Longrightarrow> obj_get obj k = None
   \<Longrightarrow> f VNothing STRIP = RTrue
   \<Longrightarrow> \<exists>res. out' = Some res \<and> map_of res k = Some VNothing"
proof (induction ks arbitrary: it out)
  case Nil
  then show ?case by auto
next
  case (Cons e ks)
  obtain k1 f1 req1 where e: "e = (k1, f1, req1)" by (cases e)
  from Cons.prems(1) e have nm: "\<not> (obj_get obj k1 = None \<and> req1)" by (auto split: if_splits)
  show ?case
  proof (cases "(k, f, req) = e")
    case True
    with e have eq: "k1 = k" "f1 = f" by simp_all
    from Cons.prems e eq nm
    have step: "keys_loop STRIP template obj ks (it, Some (obj_set out k VNothing)) = Inr (it', out')"
      by (simp add: Let_def clone_set_def)
    from Cons.prems(2) e eq have "k \<notin> fst ` set ks" by simp
    from keys_loop_strip_keeps [OF step this] obj_get_None [OF Cons.prems(4)] show ?thesis
      by (simp add: map_of_obj_set)
  next
    case False
    with Cons.prems(3) have mem: "(k, f, req) \<in> set ks" by simp
    from Cons.prems(2) have d: "distinct (map fst ks)" by simp
    from Cons.prems(1) e nm obtain it1 out1 where
      step: "keys_loop STRIP template obj ks (it1, Some out1) = Inr (it', out')"
      by (auto simp: Let_def clone_set_def split: result.splits)
    from Cons.IH [OF step d mem Cons.prems(4) Cons.prems(5)] show ?thesis .
  qed
qed

lemma keys_loop_completes:
  "\<not> (\<exists>e \<in> set ks. obj_get obj (fst e) = None \<and> snd (snd e))
   \<Longrightarrow> \<exists>it' out'. keys_loop mode template obj ks st = Inr (it', out')"
proof (cases "keys_loop mode template obj ks st")
  case (Inl r)
  assume "\<not> (\<exists>e \<in> set ks. obj_get obj (fst e) = None \<and> snd (snd e))"
  with keys_loop_missing [OF Inl] show ?thesis by blast
next
  case (Inr st')
  then show ?thesis by (cases st') simp
qed

section \<open>C8: strip mode binds an absent optional key to the symbol\<close>

text \<open>
  C8 says that in strip mode without a rest schema, for an input with an undeclared key
  and a shape with an optional key that the input lacks, \<open>parse\<close> succeeds and the
  object returned binds that key to the symbol \<open>Nothing\<close>. Success does not follow from
  these conditions: another declared key may be missing or invalid.

  Nor is a key that the input lacks as its own property absent for the validator,
  which reads \<open>obj[key]\<close> and tests \<open>key in obj\<close>: a key such as \<open>toString\<close> is
  inherited, and its inherited value is validated.

  As amended: if the key \<open>k\<close> is neither an own nor an inherited property of the input
  (\<open>obj_get obj k = None\<close>), no required key is missing and every declared key
  validates (both with inherited properties read as the validator reads them), and the
  validator of \<open>k\<close> returns \<open>true\<close> for the symbol \<open>Nothing\<close> (as that of every
  \<open>.optional()\<close> schema does), then \<open>parse\<close> succeeds and the object returned has the
  own key \<open>k\<close>, bound to the symbol \<open>Nothing\<close>: the key is neither omitted nor
  \<open>undefined\<close>. The keys of a shape are distinct, as those of an object are.
\<close>

theorem C8_strip_binds_sentinel:
  assumes d: "distinct (map fst shape)"
    and mem: "(k, ty) \<in> set shape"
    and absent: "obj_get obj k = None"
    and accepts: "func ty VNothing STRIP = RTrue"
    and extra: "undeclared shape obj \<noteq> []"
    and miss: "missing shape obj = []"
    and valid: "failures shape None STRIP obj = []"
  shows "\<exists>out. parse (ObjectType shape None) (VObj obj) (Some Strip) = Inr (VObj out)
           \<and> map_of out k = Some VNothing"
proof -
  let ?template = "shapeTemplate (map fst shape)"
  let ?ks = "map (\<lambda>e. (fst e, func (snd e), \<not> isOptional (snd e))) shape"
  from extra have "\<exists>e \<in> set obj. fst e \<notin> set (map fst shape)"
    by (auto simp: undeclared_def filter_empty_conv)
  from rest_loop_strip [OF this]
  have r1: "rest_loop (map fst shape) None STRIP ?template obj (None, None) = Inr (None, Some ?template)" .
  from keys_loop_completes [OF missing_empty [OF miss]]
  obtain it' out' where r2: "keys_loop STRIP ?template obj ?ks (None, Some ?template) = Inr (it', out')"
    by blast
  from keys_loop_flat [OF r2] valid have "flatp [] it' = []"
    by (simp add: failures_def flatp_def flat_failures_def)
  then have it': "it' = None"
    by (cases it') (simp_all add: flatp_def collect_nonempty)
  have dk: "distinct (map fst ?ks)" using d by (simp add: comp_def)
  have mk: "(k, func ty, \<not> isOptional ty) \<in> set ?ks" using mem by force
  from keys_loop_strip_nothing [OF r2 dk mk absent accepts]
  obtain out where out: "out' = Some out" "map_of out k = Some VNothing" by blast
  from r1 r2 it' out have "func (ObjectType shape None) (VObj obj) STRIP = ROk (VObj out)"
    by (simp add: func_ObjectType_loops finish_def del: func.simps)
  with out show ?thesis by (simp add: parse_def del: func.simps)
qed

theorem C8_strip_binds_sentinel_witness:
  "distinct (map fst [(''a'', OptionalType StringType), (''b'', NumberType)])
   \<and> obj_get [(''x'', VNum (Fin 1)), (''b'', VNum (Fin 2))] ''a'' = None
   \<and> func (OptionalType StringType) VNothing STRIP = RTrue
   \<and> undeclared [(''a'', OptionalType StringType), (''b'', NumberType)]
        [(''x'', VNum (Fin 1)), (''b'', VNum (Fin 2))] = [''x'']
   \<and> missing [(''a'', OptionalType StringType), (''b'', NumberType)]
        [(''x'', VNum (Fin 1)), (''b'', VNum (Fin 2))] = []
   \<and> failures [(''a'', OptionalType StringType), (''b'', NumberType)] None STRIP
        [(''x'', VNum (Fin 1)), (''b'', VNum (Fin 2))] = []
   \<and> parse (ObjectType [(''a'', OptionalType StringType), (''b'', NumberType)] None)
        (VObj [(''x'', VNum (Fin 1)), (''b'', VNum (Fin 2))]) (Some Strip)
      = Inr (VObj [(''a'', VNothing), (''b'', VNum (Fin 2))])
   \<and> map_of [(''a'', VNothing), (''b'', VNum (Fin 2))] ''a'' = Some VNothing"
proof -
  let ?shape = "[(''a'', OptionalType StringType), (''b'', NumberType)]"
  let ?obj = "[(''x'', VNum (Fin 1)), (''b'', VNum (Fin 2))]"
  have d: "distinct (map fst ?shape)" by simp
  have mem: "(''a'', OptionalType StringType) \<in> set ?shape" by simp
  have absent: "obj_get ?obj ''a'' = None" by (simp add: obj_get_def object_prototype_def)
  have accepts: "func (OptionalType StringType) VNothing STRIP = RTrue" by simp
  have extra: "undeclared ?shape ?obj = [''x'']" by (simp add: undeclared_def)
  then have extra': "undeclared ?shape ?obj \<noteq> []" by simp
  have miss: "missing ?shape ?obj = []" by (simp add: missing_def isOptional_def obj_get_def object_prototype_def)
  have valid: "failures ?shape None STRIP ?obj = []"
    by (simp add: failures_def rest_failures_def key_failures_def val_at_def obj_get_def object_prototype_def)
  have res: "parse (ObjectType ?shape None) (VObj ?obj) (Some Strip)
      = Inr (VObj [(''a'', VNothing), (''b'', VNum (Fin 2))])"
    by (simp add: parse_def object_defs)
  from C8_strip_binds_sentinel [OF d mem absent accepts extra' miss valid]
    d absent accepts extra miss valid res
  show ?thesis by simp
qed

text \<open>
  The claim as stated fails for \<open>object({a: string().optional(), b: number()})\<close>
  and the input \<open>{x: 1}\<close> in strip mode: \<open>x\<close> is undeclared, the optional key \<open>a\<close> is
  absent, and \<open>parse\<close> throws \<open>missing_key\<close> for \<open>b\<close>.
\<close>

theorem C8_parse_fails_counterexample:
  "isOptional (OptionalType StringType)
   \<and> obj_get [(''x'', VNum (Fin 1))] ''a'' = None
   \<and> undeclared [(''a'', OptionalType StringType), (''b'', NumberType)] [(''x'', VNum (Fin 1))]
      = [''x'']
   \<and> parse (ObjectType [(''a'', OptionalType StringType), (''b'', NumberType)] None)
        (VObj [(''x'', VNum (Fin 1))]) (Some Strip)
      = Inl (ValitaError (Missing_key None (KStr ''b'')))"
  by (simp add: parse_def object_defs undeclared_def)

text \<open>
  An optional key that the input only inherits: for
  \<open>object({toString: string().optional(), b: number()})\<close> and the input \<open>{x: 1, b: 2}\<close>
  in strip mode, the validator of \<open>toString\<close> is called on the inherited function, and
  \<open>parse\<close> throws \<open>invalid_type\<close> at \<open>toString\<close>.
\<close>

lemma strip_inherited_key_is_validated:
  "map_of [(''x'', VNum (Fin 1)), (''b'', VNum (Fin 2))] ''toString'' = None
   \<and> obj_get [(''x'', VNum (Fin 1)), (''b'', VNum (Fin 2))] ''toString'' = Some VFunction
   \<and> parse (ObjectType [(''toString'', OptionalType StringType), (''b'', NumberType)] None)
        (VObj [(''x'', VNum (Fin 1)), (''b'', VNum (Fin 2))]) (Some Strip)
      = Inl (ValitaError (Prepend (KStr ''toString'') (Invalid_type None [''string''])))"
  by (simp add: parse_def object_defs)

section \<open>When the validators clone\<close>




lemma finish_ROk: "finish it out = ROk w \<Longrightarrow> it = None \<and> out = Some w"
  by (auto simp: finish_def split: option.splits)

lemma rest_loop_Inl_err: "rest_loop keys rest mode template obj st = Inl r \<Longrightarrow> is_err r"
proof (induction obj arbitrary: st)
  case Nil
  then show ?case by simp
next
  case (Cons e es)
  obtain k v where e: "e = (k, v)" by (cases e)
  obtain it out where st: "st = (it, out)" by (cases st)
  show ?case
  proof (cases "k \<notin> set keys \<and> mode = STRICT")
    case True
    with Cons.prems e st show ?thesis by auto
  next
    case False
    with Cons.prems e st obtain st' where "rest_loop keys rest mode template es st' = Inl r"
      by (auto split: if_splits option.splits result.splits)
    from Cons.IH [OF this] show ?thesis .
  qed
qed

lemma keys_loop_Inl_err: "keys_loop mode template obj ks st = Inl r \<Longrightarrow> is_err r"
proof (induction ks arbitrary: st)
  case Nil
  then show ?case by simp
next
  case (Cons e ks)
  obtain k f req where e: "e = (k, f, req)" by (cases e)
  obtain it out where st: "st = (it, out)" by (cases st)
  show ?case
  proof (cases "obj_get obj k = None \<and> req")
    case True
    with Cons.prems e st show ?thesis by auto
  next
    case False
    with Cons.prems e st obtain st' where "keys_loop mode template obj ks st' = Inl r"
      by (auto simp: Let_def split: result.splits)
    from Cons.IH [OF this] show ?thesis .
  qed
qed

lemma object_ok_loops:
  assumes "func (ObjectType shape rest) (VObj obj) mode = ROk out"
  obtains it1 out1 res where
    "rest_loop (map fst shape) (map_option func rest) mode
       (if mode = PASS \<or> rest \<noteq> None then obj
        else shapeTemplate (map fst shape)) obj (None, None) = Inr (it1, out1)"
    "keys_loop mode
       (if mode = PASS \<or> rest \<noteq> None then obj
        else shapeTemplate (map fst shape)) obj
       (map (\<lambda>e. (fst e, func (snd e), \<not> isOptional (snd e))) shape) (it1, out1)
       = Inr (None, Some res)"
    "out = VObj res"
proof -
  let ?template = "if mode = PASS \<or> rest \<noteq> None then obj
              else shapeTemplate (map fst shape)"
  let ?ks = "map (\<lambda>e. (fst e, func (snd e), \<not> isOptional (snd e))) shape"
  show ?thesis
  proof (cases "rest_loop (map fst shape) (map_option func rest) mode ?template obj (None, None)")
    case (Inl r)
    from rest_loop_Inl_err [OF Inl] assms Inl show ?thesis
      by (simp add: func_ObjectType_loops del: func.simps)
  next
    case (Inr st1)
    obtain it1 out1 where st1: "st1 = (it1, out1)" by (cases st1)
    show ?thesis
    proof (cases "keys_loop mode ?template obj ?ks (it1, out1)")
      case (Inl r)
      from keys_loop_Inl_err [OF Inl] assms Inl Inr st1 show ?thesis
        by (simp add: func_ObjectType_loops del: func.simps)
    next
      case r2: (Inr st2)
      obtain it2 out2 where st2: "st2 = (it2, out2)" by (cases st2)
      from assms Inr st1 r2 st2 have "finish it2 (map_option VObj out2) = ROk out"
        by (simp add: func_ObjectType_loops del: func.simps)
      from finish_ROk [OF this] obtain res where "it2 = None" "out2 = Some res" "out = VObj res"
        by auto
      with that [of it1 out1 res] Inr st1 r2 st2 show ?thesis by simp
    qed
  qed
qed



section \<open>A union answers with the result of one of its options\<close>






















lemma finish_not_ok: "out = None \<Longrightarrow> finish it out \<noteq> ROk w"
  by (simp add: finish_def split: option.splits)


section \<open>C4: the input is returned unless something changed\<close>




section \<open>Parsing a value twice\<close>



lemma replace_key_same: "map_of obj k = Some v \<Longrightarrow> replace_key obj k v = obj"
  by (induction obj) (auto split: if_splits)

lemma obj_set_same: "map_of obj k = Some v \<Longrightarrow> obj_set obj k v = obj"
  by (simp add: obj_set_def replace_key_same)

lemma map_fst_replace_key: "map fst (replace_key obj k v) = map fst obj"
  by (induction obj) auto

lemma keys_insert_key: "set (map fst (insert_key obj k v)) = insert k (set (map fst obj))"
  by (induction obj k v rule: insert_key.induct) (simp_all add: insert_commute)

lemma distinct_insert_key:
  "distinct (map fst obj) \<Longrightarrow> k \<notin> set (map fst obj) \<Longrightarrow> distinct (map fst (insert_key obj k v))"
proof (induction obj)
  case Nil
  then show ?case by simp
next
  case (Cons e obj)
  then have "fst e \<notin> set (map fst (insert_key obj k v))"
    unfolding keys_insert_key by auto
  with Cons show ?case by (cases e) auto
qed

lemma map_fst_obj_set:
  "map_of obj k \<noteq> None \<Longrightarrow> map fst (obj_set obj k v) = map fst obj"
  by (simp add: obj_set_def map_fst_replace_key)

lemma distinct_obj_set:
  "distinct (map fst obj) \<Longrightarrow> distinct (map fst (obj_set obj k v))"
  by (auto simp: obj_set_def map_fst_replace_key map_of_eq_None_iff intro!: distinct_insert_key)

lemma keys_obj_set:
  "set (map fst (obj_set obj k v)) \<subseteq> insert k (set (map fst obj))
   \<and> set (map fst obj) \<subseteq> set (map fst (obj_set obj k v))"
  by (auto simp: obj_set_def map_fst_replace_key keys_insert_key simp del: set_map)

lemma assoc_eq:
  "distinct (map fst a) \<Longrightarrow> map fst a = map fst b
   \<Longrightarrow> (\<And>k. k \<in> set (map fst a) \<Longrightarrow> map_of a k = map_of b k) \<Longrightarrow> a = b"
proof (induction a arbitrary: b)
  case Nil
  then show ?case by simp
next
  case (Cons e a)
  from Cons.prems(2) obtain e' b' where b: "b = e' # b'" by (cases b) auto
  with Cons.prems(2) have k: "fst e' = fst e" and ks: "map fst a = map fst b'" by auto
  from Cons.prems(3) [of "fst e"] b k have v: "snd e' = snd e" by (cases e; cases e') auto
  have "a = b'"
  proof (rule Cons.IH [OF _ ks])
    show "distinct (map fst a)" using Cons.prems(1) by simp
  next
    fix x assume x: "x \<in> set (map fst a)"
    with Cons.prems(1) have "x \<noteq> fst e" by fastforce
    with Cons.prems(3) [of x] x b k show "map_of a x = map_of b' x"
      by (cases e; cases e') (auto split: if_splits)
  qed
  with b k v show ?case by (cases e; cases e') auto
qed

lemma shapeTemplate_snoc:
  "shapeTemplate (keys @ [k]) = obj_set (shapeTemplate keys) k VUndefined"
  by (simp add: shapeTemplate_def)

lemma map_of_shapeTemplate:
  "map_of (shapeTemplate keys) k
     = (if k \<in> set keys \<and> k \<noteq> ''__proto__'' then Some VUndefined else None)"
  by (induction keys rule: rev_induct) (auto simp: shapeTemplate_snoc map_of_obj_set, simp add: shapeTemplate_def)

lemma distinct_shapeTemplate: "distinct (map fst (shapeTemplate keys))"
  by (induction keys rule: rev_induct) (simp_all add: shapeTemplate_snoc distinct_obj_set, simp add: shapeTemplate_def)

lemma keys_loop_None_results:
  "keys_loop m T obj ks (it, out) = Inr (None, out')
   \<Longrightarrow> it = None \<and> (\<forall>e \<in> set ks. \<not> is_err (fst (snd e) (val_at obj (fst e)) m))"
proof (induction ks arbitrary: it out)
  case Nil
  then show ?case by simp
next
  case (Cons e ks)
  obtain k f req where e: "e = (k, f, req)" by (cases e)
  from Cons.prems e have nm: "\<not> (obj_get obj k = None \<and> req)" by (auto split: if_splits)
  have v: "(case obj_get obj k of None \<Rightarrow> VNothing | Some v \<Rightarrow> v) = val_at obj k"
    by (simp add: val_at_def)
  show ?case
  proof (cases "f (val_at obj k) m")
    case RTrue
    with Cons.prems e nm v obtain out1 where
      "keys_loop m T obj ks (it, out1) = Inr (None, out')" by (simp add: Let_def)
    from Cons.IH [OF this] RTrue e show ?thesis by simp
  next
    case (ROk w)
    with Cons.prems e nm v obtain out1 where
      "keys_loop m T obj ks (it, out1) = Inr (None, out')" by (simp add: Let_def)
    from Cons.IH [OF this] ROk e show ?thesis by simp
  next
    case (RErr r)
    with Cons.prems e nm v have
      "keys_loop m T obj ks (Some (joinIssues (prependPath (KStr k) r) it), out) = Inr (None, out')"
      by (simp add: Let_def)
    from Cons.IH [OF this] show ?thesis by simp
  qed
qed

lemma keys_loop_cloned:
  assumes "distinct (map fst ks)" "''__proto__'' \<notin> fst ` set ks"
    and "keys_loop m T obj ks (None, Some obj0) = Inr (None, out')"
  shows "\<exists>obj'. out' = Some obj'
     \<and> (\<forall>k. k \<notin> fst ` set ks \<longrightarrow> map_of obj' k = map_of obj0 k)
     \<and> (\<forall>e \<in> set ks. map_of obj' (fst e) =
            (case fst (snd e) (val_at obj (fst e)) m of
               ROk w \<Rightarrow> Some w
             | _ \<Rightarrow> if m = STRIP then Some (val_at obj (fst e)) else map_of obj0 (fst e)))
     \<and> ((\<forall>e \<in> set ks. map_of obj0 (fst e) \<noteq> None) \<longrightarrow> map fst obj' = map fst obj0)
     \<and> set (map fst obj0) \<subseteq> set (map fst obj')
     \<and> set (map fst obj') \<subseteq> set (map fst obj0) \<union> fst ` set ks
     \<and> (distinct (map fst obj0) \<longrightarrow> distinct (map fst obj'))"
  using assms
proof (induction ks arbitrary: obj0)
  case Nil
  then show ?case by auto
next
  case (Cons e ks)
  obtain k f req where e: "e = (k, f, req)" by (cases e)
  from Cons.prems e have nm: "\<not> (obj_get obj k = None \<and> req)" by (auto split: if_splits)
  have v: "(case obj_get obj k of None \<Rightarrow> VNothing | Some v \<Rightarrow> v) = val_at obj k"
    by (simp add: val_at_def)
  from Cons.prems e have d: "distinct (map fst ks)" and np: "''__proto__'' \<notin> fst ` set ks"
    and k: "k \<notin> fst ` set ks" and kp: "k \<noteq> ''__proto__''" by auto
  from keys_loop_None_results [OF Cons.prems(3)] e have ne: "\<not> is_err (f (val_at obj k) m)" by simp
  define obj1 where "obj1 =
     (case f (val_at obj k) m of
        ROk w \<Rightarrow> obj_set obj0 k w
      | _ \<Rightarrow> if m = STRIP then obj_set obj0 k (val_at obj k) else obj0)"
  from Cons.prems(3) e nm v ne
  have step: "keys_loop m T obj ks (None, Some obj1) = Inr (None, out')"
    by (cases "f (val_at obj k) m"; cases "m = STRIP") (simp_all add: Let_def clone_set_def obj1_def)
  from Cons.IH [OF d np step] obtain obj' where o: "out' = Some obj'"
    and a: "\<forall>k. k \<notin> fst ` set ks \<longrightarrow> map_of obj' k = map_of obj1 k"
    and b: "\<forall>e \<in> set ks. map_of obj' (fst e) =
            (case fst (snd e) (val_at obj (fst e)) m of
               ROk w \<Rightarrow> Some w
             | _ \<Rightarrow> if m = STRIP then Some (val_at obj (fst e)) else map_of obj1 (fst e))"
    and c: "(\<forall>e \<in> set ks. map_of obj1 (fst e) \<noteq> None) \<longrightarrow> map fst obj' = map fst obj1"
    and s1: "set (map fst obj1) \<subseteq> set (map fst obj')"
    and s2: "set (map fst obj') \<subseteq> set (map fst obj1) \<union> fst ` set ks"
    and dd: "distinct (map fst obj1) \<longrightarrow> distinct (map fst obj')"
    by blast
  have l1: "\<And>k'. k' \<noteq> k \<Longrightarrow> map_of obj1 k' = map_of obj0 k'"
    by (auto simp: obj1_def map_of_obj_set split: result.splits)
  have lk: "map_of obj1 k =
            (case f (val_at obj k) m of
               ROk w \<Rightarrow> Some w
             | _ \<Rightarrow> if m = STRIP then Some (val_at obj k) else map_of obj0 k)"
    using kp by (auto simp: obj1_def map_of_obj_set split: result.splits)
  have keys1: "set (map fst obj0) \<subseteq> set (map fst obj1)"
      "set (map fst obj1) \<subseteq> insert k (set (map fst obj0))"
    using keys_obj_set [of obj0 k] by (auto simp: obj1_def split: result.splits)
  have fst1: "map_of obj0 k \<noteq> None \<Longrightarrow> map fst obj1 = map fst obj0"
    by (auto simp: obj1_def map_fst_obj_set split: result.splits)
  have d1: "distinct (map fst obj0) \<Longrightarrow> distinct (map fst obj1)"
    by (auto simp: obj1_def distinct_obj_set split: result.splits)
  show ?case
  proof (intro exI [of _ obj'] conjI)
    show "out' = Some obj'" by (rule o)
    show "\<forall>k'. k' \<notin> fst ` set (e # ks) \<longrightarrow> map_of obj' k' = map_of obj0 k'"
      using a l1 e by auto
    show "\<forall>e' \<in> set (e # ks). map_of obj' (fst e') =
            (case fst (snd e') (val_at obj (fst e')) m of
               ROk w \<Rightarrow> Some w
             | _ \<Rightarrow> if m = STRIP then Some (val_at obj (fst e')) else map_of obj0 (fst e'))"
    proof
      fix e' assume "e' \<in> set (e # ks)"
      then consider "e' = e" | "e' \<in> set ks" by auto
      then show "map_of obj' (fst e') =
            (case fst (snd e') (val_at obj (fst e')) m of
               ROk w \<Rightarrow> Some w
             | _ \<Rightarrow> if m = STRIP then Some (val_at obj (fst e')) else map_of obj0 (fst e'))"
      proof cases
        case 1
        with a k lk e show ?thesis by (simp split: result.splits)
      next
        case 2
        then have "fst e' \<noteq> k" using k by auto
        with b 2 l1 show ?thesis by (simp split: result.splits)
      qed
    qed
    show "(\<forall>e' \<in> set (e # ks). map_of obj0 (fst e') \<noteq> None) \<longrightarrow> map fst obj' = map fst obj0"
    proof
      assume own: "\<forall>e' \<in> set (e # ks). map_of obj0 (fst e') \<noteq> None"
      with e have "map_of obj0 k \<noteq> None" by simp
      from fst1 [OF this] have f1: "map fst obj1 = map fst obj0" .
      have "\<forall>e' \<in> set ks. map_of obj1 (fst e') \<noteq> None"
      proof
        fix e' assume m: "e' \<in> set ks"
        then have "fst e' \<noteq> k" using k by auto
        from l1 [OF this] own m show "map_of obj1 (fst e') \<noteq> None" by simp
      qed
      with c f1 show "map fst obj' = map fst obj0" by simp
    qed
    show "set (map fst obj0) \<subseteq> set (map fst obj')" using s1 keys1 by blast
    have ek: "fst ` set (e # ks) = insert k (fst ` set ks)" using e by simp
    show "set (map fst obj') \<subseteq> set (map fst obj0) \<union> fst ` set (e # ks)"
      unfolding ek using s2 keys1 by blast
    show "distinct (map fst obj0) \<longrightarrow> distinct (map fst obj')" using dd d1 by blast
  qed
qed

lemma keys_loop_uncloned:
  assumes "keys_loop m T obj ks (None, None) = Inr (None, out')"
  shows "(out' = None \<and> (\<forall>e \<in> set ks. fst (snd e) (val_at obj (fst e)) m = RTrue))
     \<or> (\<exists>pre e0 post w0. ks = pre @ e0 # post
           \<and> (\<forall>e \<in> set pre. fst (snd e) (val_at obj (fst e)) m = RTrue)
           \<and> fst (snd e0) (val_at obj (fst e0)) m = ROk w0
           \<and> keys_loop m T obj post (None, Some (obj_set T (fst e0) w0)) = Inr (None, out'))"
  using assms
proof (induction ks)
  case Nil
  then show ?case by simp
next
  case (Cons e ks)
  obtain k f req where e: "e = (k, f, req)" by (cases e)
  from Cons.prems e have nm: "\<not> (obj_get obj k = None \<and> req)" by (auto split: if_splits)
  have v: "(case obj_get obj k of None \<Rightarrow> VNothing | Some v \<Rightarrow> v) = val_at obj k"
    by (simp add: val_at_def)
  from keys_loop_None_results [OF Cons.prems] e have ne: "\<not> is_err (f (val_at obj k) m)" by simp
  show ?case
  proof (cases "f (val_at obj k) m")
    case RTrue
    with Cons.prems e nm v have "keys_loop m T obj ks (None, None) = Inr (None, out')"
      by (simp add: Let_def)
    from Cons.IH [OF this] show ?thesis
    proof (elim disjE exE conjE)
      assume "out' = None" "\<forall>e \<in> set ks. fst (snd e) (val_at obj (fst e)) m = RTrue"
      with RTrue e show ?thesis by simp
    next
      fix pre e0 post w0
      assume "ks = pre @ e0 # post" "\<forall>e \<in> set pre. fst (snd e) (val_at obj (fst e)) m = RTrue"
        "fst (snd e0) (val_at obj (fst e0)) m = ROk w0"
        "keys_loop m T obj post (None, Some (obj_set T (fst e0) w0)) = Inr (None, out')"
      with RTrue e show ?thesis
        by (intro disjI2 exI [of _ "e # pre"] exI [of _ e0] exI [of _ post] exI [of _ w0]) simp
    qed
  next
    case (ROk w)
    with Cons.prems e nm v
    have "keys_loop m T obj ks (None, Some (obj_set T k w)) = Inr (None, out')"
      by (simp add: Let_def clone_set_def)
    with ROk e show ?thesis
      by (intro disjI2 exI [of _ "[]"] exI [of _ e] exI [of _ ks] exI [of _ w]) simp
  next
    case (RErr r)
    with ne show ?thesis by simp
  qed
qed

lemma keys_loop_succeeds:
  "\<forall>e \<in> set ks. \<not> (obj_get obj (fst e) = None \<and> snd (snd e))
   \<Longrightarrow> \<forall>e \<in> set ks. \<not> is_err (fst (snd e) (val_at obj (fst e)) m)
   \<Longrightarrow> \<exists>out'. keys_loop m T obj ks (None, out) = Inr (None, out')"
proof (induction ks arbitrary: out)
  case Nil
  then show ?case by simp
next
  case (Cons e ks)
  obtain k f req where e: "e = (k, f, req)" by (cases e)
  from Cons.prems e have nm: "\<not> (obj_get obj k = None \<and> req)" by auto
  have v: "(case obj_get obj k of None \<Rightarrow> VNothing | Some v \<Rightarrow> v) = val_at obj k"
    by (simp add: val_at_def)
  from Cons.prems e have ne: "\<not> is_err (f (val_at obj k) m)" by simp
  from Cons.prems have p: "\<forall>e \<in> set ks. \<not> (obj_get obj (fst e) = None \<and> snd (snd e))"
    "\<forall>e \<in> set ks. \<not> is_err (fst (snd e) (val_at obj (fst e)) m)" by simp_all
  show ?case
  proof (cases "f (val_at obj k) m")
    case RTrue
    from Cons.IH [OF p] RTrue e nm v show ?thesis by (simp add: Let_def)
  next
    case (ROk w)
    from Cons.IH [OF p] ROk e nm v show ?thesis by (simp add: Let_def)
  next
    case (RErr r)
    with ne show ?thesis by simp
  qed
qed

lemma obj_get_cong: "map_of a k = map_of b k \<Longrightarrow> obj_get a k = obj_get b k"
  by (simp add: obj_get_def)

lemma val_at_cong: "map_of a k = map_of b k \<Longrightarrow> val_at a k = val_at b k"
  by (simp add: val_at_def obj_get_def)

lemma val_at_own: "map_of a k = Some x \<Longrightarrow> val_at a k = x \<and> obj_get a k \<noteq> None"
  by (simp add: val_at_def obj_get_def)

lemma cur_simps [simp]: "cur T None = T" "cur T (Some obj) = obj"
  by (simp_all add: cur_def)

lemma clone_set_cur: "clone_set T out k v = Some (obj_set (cur T out) k v)"
  by (simp add: clone_set_def cur_def)

lemma keys_loop_step:
  assumes "keys_loop m T obj ((k, f, req) # ks) (None, out) = Inr (None, out')"
  shows "\<not> (obj_get obj k = None \<and> req) \<and> \<not> is_err (f (val_at obj k) m)
     \<and> keys_loop m T obj ks
          (None,
           case f (val_at obj k) m of
             ROk w \<Rightarrow> Some (obj_set (cur T out) k w)
           | _ \<Rightarrow> if m = STRIP \<and> out \<noteq> None
                  then Some (obj_set (cur T out) k (val_at obj k)) else out)
         = Inr (None, out')"
proof -
  from assms have nm: "\<not> (obj_get obj k = None \<and> req)" by (auto split: if_splits)
  have v: "(case obj_get obj k of None \<Rightarrow> VNothing | Some v \<Rightarrow> v) = val_at obj k"
    by (simp add: val_at_def)
  from keys_loop_None_results [OF assms] have ne: "\<not> is_err (f (val_at obj k) m)" by simp
  from assms nm v ne show ?thesis
    by (cases "f (val_at obj k) m") (auto simp: Let_def clone_set_cur split: if_splits)
qed

lemma keys_A:
  assumes "distinct (map fst ks)" "''__proto__'' \<notin> fst ` set ks"
    and "keys_loop m T obj ks (None, out) = Inr (None, out')"
    and "\<forall>e \<in> set ks. map_of (cur T out) (fst e) = map_of obj (fst e)"
  shows "(\<forall>k. k \<notin> fst ` set ks \<longrightarrow> map_of (cur T out') k = map_of (cur T out) k)
     \<and> (\<forall>e \<in> set ks. val_at (cur T out') (fst e) = yielded (fst (snd e)) m (val_at obj (fst e)))
     \<and> (\<forall>e \<in> set ks. obj_get (cur T out') (fst e) = None \<longrightarrow> obj_get obj (fst e) = None)
     \<and> set (map fst (cur T out)) \<subseteq> set (map fst (cur T out'))
     \<and> set (map fst (cur T out')) \<subseteq> set (map fst (cur T out)) \<union> fst ` set ks
     \<and> (distinct (map fst (cur T out)) \<longrightarrow> distinct (map fst (cur T out')))
     \<and> (out \<noteq> None \<longrightarrow> out' \<noteq> None)"
  using assms
proof (induction ks arbitrary: out)
  case Nil
  then show ?case by auto
next
  case (Cons e ks)
  obtain k f req where e: "e = (k, f, req)" by (cases e)
  from Cons.prems e have d: "distinct (map fst ks)" and np: "''__proto__'' \<notin> fst ` set ks"
    and k: "k \<notin> fst ` set ks" and kp: "k \<noteq> ''__proto__''" by auto
  define out1 where "out1 =
     (case f (val_at obj k) m of
        ROk w \<Rightarrow> Some (obj_set (cur T out) k w)
      | _ \<Rightarrow> if m = STRIP \<and> out \<noteq> None
             then Some (obj_set (cur T out) k (val_at obj k)) else out)"
  from keys_loop_step [OF Cons.prems(3) [unfolded e]]
  have ne: "\<not> is_err (f (val_at obj k) m)"
    and step: "keys_loop m T obj ks (None, out1) = Inr (None, out')"
    by (simp_all add: out1_def)
  have l1: "\<And>k'. k' \<noteq> k \<Longrightarrow> map_of (cur T out1) k' = map_of (cur T out) k'"
    by (auto simp: out1_def map_of_obj_set split: result.splits)
  have agree: "\<forall>e \<in> set ks. map_of (cur T out1) (fst e) = map_of obj (fst e)"
  proof
    fix e' assume m: "e' \<in> set ks"
    then have "fst e' \<noteq> k" using k by auto
    from l1 [OF this] Cons.prems(4) m show "map_of (cur T out1) (fst e') = map_of obj (fst e')"
      by simp
  qed
  from Cons.prems(4) e have ak: "map_of (cur T out) k = map_of obj k" by simp
  have lk: "map_of (cur T out1) k = map_of obj k \<and> yielded f m (val_at obj k) = val_at obj k
            \<or> map_of (cur T out1) k = Some (yielded f m (val_at obj k))"
    using kp ak ne
    by (cases "f (val_at obj k) m") (auto simp: out1_def map_of_obj_set yielded_def)
  have keys1: "set (map fst (cur T out)) \<subseteq> set (map fst (cur T out1))"
      "set (map fst (cur T out1)) \<subseteq> insert k (set (map fst (cur T out)))"
    using keys_obj_set [of "cur T out" k] by (auto simp: out1_def split: result.splits)
  have d1: "distinct (map fst (cur T out)) \<Longrightarrow> distinct (map fst (cur T out1))"
    by (auto simp: out1_def distinct_obj_set split: result.splits)
  have c1: "out \<noteq> None \<Longrightarrow> out1 \<noteq> None"
    by (auto simp: out1_def split: result.splits)
  from Cons.IH [OF d np step agree]
  have a: "\<forall>k. k \<notin> fst ` set ks \<longrightarrow> map_of (cur T out') k = map_of (cur T out1) k"
    and b: "\<forall>e \<in> set ks. val_at (cur T out') (fst e) = yielded (fst (snd e)) m (val_at obj (fst e))"
    and c: "\<forall>e \<in> set ks. obj_get (cur T out') (fst e) = None \<longrightarrow> obj_get obj (fst e) = None"
    and s1: "set (map fst (cur T out1)) \<subseteq> set (map fst (cur T out'))"
    and s2: "set (map fst (cur T out')) \<subseteq> set (map fst (cur T out1)) \<union> fst ` set ks"
    and dd: "distinct (map fst (cur T out1)) \<longrightarrow> distinct (map fst (cur T out'))"
    and cc: "out1 \<noteq> None \<longrightarrow> out' \<noteq> None"
    by blast+
  from a k have fk: "map_of (cur T out') k = map_of (cur T out1) k" by simp
  have bk: "val_at (cur T out') k = yielded f m (val_at obj k)"
    using lk fk by (auto simp: val_at_cong [of "cur T out'" k obj] dest: val_at_own)
  have ck: "obj_get (cur T out') k = None \<longrightarrow> obj_get obj k = None"
    using lk fk by (auto simp: obj_get_cong [of "cur T out'" k obj] dest: val_at_own)
  have ek: "fst ` set (e # ks) = insert k (fst ` set ks)" using e by simp
  show ?case
  proof (intro conjI)
    show "\<forall>k'. k' \<notin> fst ` set (e # ks) \<longrightarrow> map_of (cur T out') k' = map_of (cur T out) k'"
      using a l1 unfolding ek by auto
    show "\<forall>e' \<in> set (e # ks). val_at (cur T out') (fst e') = yielded (fst (snd e')) m (val_at obj (fst e'))"
      using b bk e by simp
    show "\<forall>e' \<in> set (e # ks). obj_get (cur T out') (fst e') = None \<longrightarrow> obj_get obj (fst e') = None"
      using c ck e by simp
    show "set (map fst (cur T out)) \<subseteq> set (map fst (cur T out'))" using s1 keys1 by blast
    show "set (map fst (cur T out')) \<subseteq> set (map fst (cur T out)) \<union> fst ` set (e # ks)"
      unfolding ek using s2 keys1 by blast
    show "distinct (map fst (cur T out)) \<longrightarrow> distinct (map fst (cur T out'))" using dd d1 by blast
    show "out \<noteq> None \<longrightarrow> out' \<noteq> None" using cc c1 by blast
  qed
qed

lemma yielded_cases:
  "\<not> is_err (f v m) \<Longrightarrow>
     (f v m = RTrue \<and> yielded f m v = v) \<or> (f v m = ROk (yielded f m v))"
  by (cases "f v m") (simp_all add: yielded_def)

lemma keys_second_run:
  assumes "distinct (map fst ks)" "''__proto__'' \<notin> fst ` set ks"
    and run1: "keys_loop m obj obj ks (None, out1) = Inr (None, out1')"
    and agree: "\<forall>e \<in> set ks. map_of (cur obj out1) (fst e) = map_of obj (fst e)"
    and idem: "\<forall>e \<in> set ks. \<forall>w. fst (snd e) (val_at obj (fst e)) m = ROk w
                \<longrightarrow> fst (snd e) w m = RTrue \<or> fst (snd e) w m = ROk w"
    and inv: "out2 = None \<or> (out2 = Some (cur obj out1') \<and> (m = STRIP \<longrightarrow> out1 \<noteq> None))"
  shows "\<exists>out2'. keys_loop m (cur obj out1') (cur obj out1') ks (None, out2) = Inr (None, out2')
           \<and> (out2' = None \<or> out2' = Some (cur obj out1'))"
  using assms
proof (induction ks arbitrary: out1 out2)
  case Nil
  then show ?case by auto
next
  case (Cons e ks)
  obtain k f req where e: "e = (k, f, req)" by (cases e)
  let ?fin = "cur obj out1'"
  from Cons.prems e have d: "distinct (map fst ks)" and np: "''__proto__'' \<notin> fst ` set ks"
    and k: "k \<notin> fst ` set ks" and kp: "k \<noteq> ''__proto__''" by auto
  define out1n where "out1n =
     (case f (val_at obj k) m of
        ROk w \<Rightarrow> Some (obj_set (cur obj out1) k w)
      | _ \<Rightarrow> if m = STRIP \<and> out1 \<noteq> None
             then Some (obj_set (cur obj out1) k (val_at obj k)) else out1)"
  from keys_loop_step [OF Cons.prems(3) [unfolded e]]
  have nm: "\<not> (obj_get obj k = None \<and> req)" and ne: "\<not> is_err (f (val_at obj k) m)"
    and step: "keys_loop m obj obj ks (None, out1n) = Inr (None, out1')"
    by (simp_all add: out1n_def)
  have l1: "\<And>k'. k' \<noteq> k \<Longrightarrow> map_of (cur obj out1n) k' = map_of (cur obj out1) k'"
    by (auto simp: out1n_def map_of_obj_set split: result.splits)
  have agree1: "\<forall>e \<in> set ks. map_of (cur obj out1n) (fst e) = map_of obj (fst e)"
  proof
    fix e' assume m: "e' \<in> set ks"
    then have "fst e' \<noteq> k" using k by auto
    from l1 [OF this] Cons.prems(4) m show "map_of (cur obj out1n) (fst e') = map_of obj (fst e')"
      by simp
  qed
  from keys_A [OF Cons.prems(1) Cons.prems(2) Cons.prems(3) Cons.prems(4)] e
  have vk: "val_at ?fin k = yielded f m (val_at obj k)"
    and pk: "obj_get ?fin k = None \<longrightarrow> obj_get obj k = None"
    by simp_all
  from keys_A [OF d np step agree1] k
  have keep: "map_of ?fin k = map_of (cur obj out1n) k" by simp
  have fix1: "\<forall>e \<in> set ks. \<forall>w. fst (snd e) (val_at obj (fst e)) m = ROk w
                \<longrightarrow> fst (snd e) w m = RTrue \<or> fst (snd e) w m = ROk w"
    using Cons.prems(5) by simp
  have nm2: "\<not> (obj_get ?fin k = None \<and> req)" using nm pk by blast
  have v2: "(case obj_get ?fin k of None \<Rightarrow> VNothing | Some v \<Rightarrow> v) = val_at ?fin k"
    by (simp add: val_at_def)
  have assigned: "out1n \<noteq> out1 \<Longrightarrow> map_of ?fin k = Some (yielded f m (val_at obj k))"
    using keep kp ne
    by (cases "f (val_at obj k) m")
       (auto simp: out1n_def map_of_obj_set yielded_def split: if_splits)
  have c1: "out1 \<noteq> None \<Longrightarrow> out1n \<noteq> None"
    by (auto simp: out1n_def split: result.splits)
  from yielded_cases [of f "val_at obj k" m, OF ne] show ?case
  proof (elim disjE conjE)
    assume r1: "f (val_at obj k) m = RTrue" and y: "yielded f m (val_at obj k) = val_at obj k"
    with vk have r2: "f (val_at ?fin k) m = RTrue" by simp
    show ?thesis
    proof (cases "m = STRIP \<and> out2 \<noteq> None")
      case True
      with Cons.prems(6) have o2: "out2 = Some ?fin" and c: "out1 \<noteq> None" by auto
      from True c r1 have "cur obj out1n = obj_set (cur obj out1) k (val_at obj k)"
        by (auto simp: out1n_def)
      with kp have "map_of (cur obj out1n) k = Some (val_at obj k)"
        by (simp add: map_of_obj_set)
      with keep vk y have own: "map_of ?fin k = Some (val_at ?fin k)" by simp
      have inv1: "out2 = None \<or> (out2 = Some ?fin \<and> (m = STRIP \<longrightarrow> out1n \<noteq> None))"
        using o2 c c1 by simp
      from Cons.IH [OF d np step agree1 fix1 inv1] obtain out2' where
        "keys_loop m ?fin ?fin ks (None, out2) = Inr (None, out2')"
        "out2' = None \<or> out2' = Some ?fin" by blast
      with True o2 r2 nm2 v2 own e show ?thesis
        by (simp add: Let_def clone_set_cur obj_set_same)
    next
      case False
      have inv1: "out2 = None \<or> (out2 = Some ?fin \<and> (m = STRIP \<longrightarrow> out1n \<noteq> None))"
        using False Cons.prems(6) by auto
      from Cons.IH [OF d np step agree1 fix1 inv1] obtain out2' where
        "keys_loop m ?fin ?fin ks (None, out2) = Inr (None, out2')"
        "out2' = None \<or> out2' = Some ?fin" by blast
      with False r2 nm2 v2 e show ?thesis
        by (auto simp: Let_def)
    qed
  next
    assume r1: "f (val_at obj k) m = ROk (yielded f m (val_at obj k))"
    let ?w = "yielded f m (val_at obj k)"
    from r1 have "out1n \<noteq> None" by (simp add: out1n_def)
    have own: "map_of ?fin k = Some ?w"
      using keep kp r1 by (simp add: out1n_def map_of_obj_set)
    from Cons.prems(5) e r1 have r2: "f ?w m = RTrue \<or> f ?w m = ROk ?w" by simp
    have same: "obj_set ?fin k ?w = ?fin" using own by (rule obj_set_same)
    define out2n where "out2n =
       (case f ?w m of
          ROk w \<Rightarrow> Some ?fin
        | _ \<Rightarrow> out2)"
    have inv1: "out2n = None \<or> (out2n = Some ?fin \<and> (m = STRIP \<longrightarrow> out1n \<noteq> None))"
      using Cons.prems(6) \<open>out1n \<noteq> None\<close> by (auto simp: out2n_def split: result.splits)
    from Cons.IH [OF d np step agree1 fix1 inv1] obtain out2' where
      l: "keys_loop m ?fin ?fin ks (None, out2n) = Inr (None, out2')"
      and o: "out2' = None \<or> out2' = Some ?fin" by blast
    have "keys_loop m ?fin ?fin (e # ks) (None, out2) = keys_loop m ?fin ?fin ks (None, out2n)"
      using r2 nm2 v2 vk same Cons.prems(6) e
      by (auto simp: Let_def clone_set_cur out2n_def)
    with l o show ?thesis by auto
  qed
qed

lemma rest_loop_declared:
  "\<forall>e \<in> set es. fst e \<in> set keys \<Longrightarrow> rest_loop keys rest m T es st = Inr st"
proof (induction es)
  case Nil
  then show ?case by simp
next
  case (Cons e es)
  obtain k x where e: "e = (k, x)" by (cases e)
  obtain it out where st: "st = (it, out)" by (cases st)
  from Cons e st show ?case by simp
qed

lemma rest_loop_None_results:
  "rest_loop keys (Some rf) PASS T es (it, out) = Inr (None, out')
   \<Longrightarrow> it = None \<and> (\<forall>e \<in> set es. fst e \<notin> set keys \<longrightarrow> \<not> is_err (rf (snd e) PASS))"
proof (induction es arbitrary: it out)
  case Nil
  then show ?case by simp
next
  case (Cons e es)
  obtain k x where e: "e = (k, x)" by (cases e)
  show ?case
  proof (cases "k \<in> set keys")
    case True
    with Cons.prems e have "rest_loop keys (Some rf) PASS T es (it, out) = Inr (None, out')" by simp
    from Cons.IH [OF this] True e show ?thesis by simp
  next
    case False
    show ?thesis
    proof (cases "rf x PASS")
      case RTrue
      with Cons.prems e False
      have "rest_loop keys (Some rf) PASS T es (it, out) = Inr (None, out')" by simp
      from Cons.IH [OF this] RTrue e show ?thesis by simp
    next
      case (ROk w)
      with Cons.prems e False
      have "rest_loop keys (Some rf) PASS T es (it, clone_set T out k w) = Inr (None, out')"
        by simp
      from Cons.IH [OF this] ROk e show ?thesis by simp
    next
      case (RErr r)
      with Cons.prems e False
      have "rest_loop keys (Some rf) PASS T es (Some (joinIssues (prependPath (KStr k) r) it), out)
              = Inr (None, out')" by simp
      from Cons.IH [OF this] show ?thesis by simp
    qed
  qed
qed

lemma rest_loop_step:
  assumes "rest_loop keys (Some rf) PASS T ((k, x) # es) (None, out) = Inr (None, out')"
  shows "(k \<notin> set keys \<longrightarrow> \<not> is_err (rf x PASS))
     \<and> rest_loop keys (Some rf) PASS T es
          (None,
           if k \<in> set keys then out
           else (case rf x PASS of ROk w \<Rightarrow> Some (obj_set (cur T out) k w) | _ \<Rightarrow> out))
         = Inr (None, out')"
proof -
  from rest_loop_None_results [OF assms]
  have ne: "k \<notin> set keys \<longrightarrow> \<not> is_err (rf x PASS)" by simp
  with assms show ?thesis
    by (cases "rf x PASS") (auto simp: clone_set_cur split: if_splits)
qed

lemma rest_A:
  assumes "distinct (map fst es)"
    and "rest_loop keys (Some rf) PASS T es (None, out) = Inr (None, out')"
    and "\<forall>e \<in> set es. map_of (cur T out) (fst e) = Some (snd e)"
  shows "(\<forall>k. k \<notin> fst ` set es \<or> k \<in> set keys \<longrightarrow> map_of (cur T out') k = map_of (cur T out) k)
     \<and> (\<forall>e \<in> set es. fst e \<notin> set keys
            \<longrightarrow> map_of (cur T out') (fst e) = Some (yielded rf PASS (snd e)))
     \<and> map fst (cur T out') = map fst (cur T out)
     \<and> (out \<noteq> None \<longrightarrow> out' \<noteq> None)"
  using assms
proof (induction es arbitrary: out)
  case Nil
  then show ?case by auto
next
  case (Cons e es)
  obtain k x where e: "e = (k, x)" by (cases e)
  from Cons.prems e have d: "distinct (map fst es)" and k: "k \<notin> fst ` set es" by auto
  define out1 where "out1 =
     (if k \<in> set keys then out
      else (case rf x PASS of ROk w \<Rightarrow> Some (obj_set (cur T out) k w) | _ \<Rightarrow> out))"
  from rest_loop_step [OF Cons.prems(2) [unfolded e]]
  have ne: "k \<notin> set keys \<longrightarrow> \<not> is_err (rf x PASS)"
    and step: "rest_loop keys (Some rf) PASS T es (None, out1) = Inr (None, out')"
    by (simp_all add: out1_def)
  from Cons.prems(3) e have own: "map_of (cur T out) k = Some x" by simp
  have l1: "\<And>k'. k' \<noteq> k \<Longrightarrow> map_of (cur T out1) k' = map_of (cur T out) k'"
    by (auto simp: out1_def map_of_obj_set split: result.splits)
  have lk: "map_of (cur T out1) k = (if k \<in> set keys then Some x else Some (yielded rf PASS x))"
    using own ne
    by (cases "rf x PASS") (auto simp: out1_def map_of_obj_set yielded_def)
  have f1: "map fst (cur T out1) = map fst (cur T out)"
    using own by (auto simp: out1_def map_fst_obj_set split: result.splits)
  have c1: "out \<noteq> None \<Longrightarrow> out1 \<noteq> None"
    by (auto simp: out1_def split: result.splits)
  have agree: "\<forall>e \<in> set es. map_of (cur T out1) (fst e) = Some (snd e)"
  proof
    fix e' assume m: "e' \<in> set es"
    then have "fst e' \<noteq> k" using k by auto
    from l1 [OF this] Cons.prems(3) m show "map_of (cur T out1) (fst e') = Some (snd e')" by simp
  qed
  from Cons.IH [OF d step agree]
  have a: "\<forall>k. k \<notin> fst ` set es \<or> k \<in> set keys \<longrightarrow> map_of (cur T out') k = map_of (cur T out1) k"
    and b: "\<forall>e \<in> set es. fst e \<notin> set keys
            \<longrightarrow> map_of (cur T out') (fst e) = Some (yielded rf PASS (snd e))"
    and c: "map fst (cur T out') = map fst (cur T out1)"
    and cc: "out1 \<noteq> None \<longrightarrow> out' \<noteq> None"
    by blast+
  from a k have fk: "map_of (cur T out') k = map_of (cur T out1) k" by simp
  have ek: "fst ` set (e # es) = insert k (fst ` set es)" using e by simp
  show ?case
  proof (intro conjI)
    show "\<forall>k'. k' \<notin> fst ` set (e # es) \<or> k' \<in> set keys
            \<longrightarrow> map_of (cur T out') k' = map_of (cur T out) k'"
    proof (intro allI impI)
      fix k' assume h: "k' \<notin> fst ` set (e # es) \<or> k' \<in> set keys"
      show "map_of (cur T out') k' = map_of (cur T out) k'"
      proof (cases "k' = k")
        case True
        with h ek have "k \<in> set keys" by auto
        with fk lk own True show ?thesis by simp
      next
        case False
        from h ek have "k' \<notin> fst ` set es \<or> k' \<in> set keys" by auto
        with a l1 [OF False] show ?thesis by simp
      qed
    qed
    show "\<forall>e' \<in> set (e # es). fst e' \<notin> set keys
            \<longrightarrow> map_of (cur T out') (fst e') = Some (yielded rf PASS (snd e'))"
      using b fk lk e by simp
    show "map fst (cur T out') = map fst (cur T out)" using c f1 by simp
    show "out \<noteq> None \<longrightarrow> out' \<noteq> None" using cc c1 by blast
  qed
qed

lemma rest_second_run:
  assumes "\<forall>e \<in> set es. fst e \<notin> set keys
             \<longrightarrow> (rf (snd e) PASS = RTrue \<or> rf (snd e) PASS = ROk (snd e))
                 \<and> map_of obj' (fst e) = Some (snd e)"
    and "out = None \<or> out = Some obj'"
  shows "\<exists>out'. rest_loop keys (Some rf) PASS obj' es (None, out) = Inr (None, out')
           \<and> (out' = None \<or> out' = Some obj')"
  using assms
proof (induction es arbitrary: out)
  case Nil
  then show ?case by auto
next
  case (Cons e es)
  obtain k x where e: "e = (k, x)" by (cases e)
  from Cons.prems(1) have p: "\<forall>e \<in> set es. fst e \<notin> set keys
             \<longrightarrow> (rf (snd e) PASS = RTrue \<or> rf (snd e) PASS = ROk (snd e))
                 \<and> map_of obj' (fst e) = Some (snd e)" by simp
  show ?case
  proof (cases "k \<in> set keys")
    case True
    from Cons.IH [OF p Cons.prems(2)] True e show ?thesis by simp
  next
    case False
    with Cons.prems(1) e have r: "rf x PASS = RTrue \<or> rf x PASS = ROk x"
      and own: "map_of obj' k = Some x" by auto
    from r show ?thesis
    proof
      assume "rf x PASS = RTrue"
      with Cons.IH [OF p Cons.prems(2)] False e show ?thesis by simp
    next
      assume ok: "rf x PASS = ROk x"
      have "clone_set obj' out k x = Some obj'"
        using Cons.prems(2) own by (auto simp: clone_set_cur obj_set_same)
      moreover from Cons.IH [OF p, of "Some obj'"] obtain out' where
        "rest_loop keys (Some rf) PASS obj' es (None, Some obj') = Inr (None, out')"
        "out' = None \<or> out' = Some obj'" by auto
      ultimately show ?thesis using ok False e by simp
    qed
  qed
qed

lemma keys_all_set_cloned:
  assumes d: "distinct (map fst ks)" and np: "''__proto__'' \<notin> fst ` set ks"
    and run: "keys_loop m T obj ks (None, Some obj0) = Inr (None, out')"
    and own: "\<forall>e \<in> set ks. map_of obj0 (fst e) \<noteq> None"
    and every: "m = STRIP \<or> (\<forall>e \<in> set ks. is_ok (fst (snd e) (val_at obj (fst e)) m))"
  shows "\<exists>obj'. out' = Some obj'
     \<and> (\<forall>e \<in> set ks. map_of obj' (fst e) = Some (yielded (fst (snd e)) m (val_at obj (fst e))))
     \<and> (\<forall>k. k \<notin> fst ` set ks \<longrightarrow> map_of obj' k = map_of obj0 k)
     \<and> map fst obj' = map fst obj0"
proof -
  from keys_loop_cloned [OF d np run] obtain obj' where o: "out' = Some obj'"
    and a: "\<forall>k. k \<notin> fst ` set ks \<longrightarrow> map_of obj' k = map_of obj0 k"
    and b: "\<forall>e \<in> set ks. map_of obj' (fst e) =
            (case fst (snd e) (val_at obj (fst e)) m of
               ROk w \<Rightarrow> Some w
             | _ \<Rightarrow> if m = STRIP then Some (val_at obj (fst e)) else map_of obj0 (fst e))"
    and c: "(\<forall>e \<in> set ks. map_of obj0 (fst e) \<noteq> None) \<longrightarrow> map fst obj' = map fst obj0"
    by blast
  have "\<forall>e \<in> set ks. map_of obj' (fst e) = Some (yielded (fst (snd e)) m (val_at obj (fst e)))"
  proof
    fix e assume m: "e \<in> set ks"
    from keys_loop_None_results [OF run] m
    have ne: "\<not> is_err (fst (snd e) (val_at obj (fst e)) m)" by simp
    from every m have "m = STRIP \<or> is_ok (fst (snd e) (val_at obj (fst e)) m)" by auto
    with b m ne show "map_of obj' (fst e) = Some (yielded (fst (snd e)) m (val_at obj (fst e)))"
      by (cases "fst (snd e) (val_at obj (fst e)) m") (auto simp: yielded_def)
  qed
  with o a c own show ?thesis by simp
qed

lemma keys_all_set:
  assumes d: "distinct (map fst ks)" and np: "''__proto__'' \<notin> fst ` set ks"
    and run: "keys_loop m T obj ks (None, out) = Inr (None, Some obj')"
    and own: "\<forall>e \<in> set ks. map_of T (fst e) \<noteq> None"
    and start: "out = None \<or> out = Some T"
    and every: "m = STRIP \<or> (\<forall>e \<in> set ks. is_ok (fst (snd e) (val_at obj (fst e)) m))"
    and first: "out = None \<longrightarrow> ks \<noteq> [] \<and> is_ok (fst (snd (hd ks)) (val_at obj (fst (hd ks))) m)"
  shows "(\<forall>e \<in> set ks. map_of obj' (fst e) = Some (yielded (fst (snd e)) m (val_at obj (fst e))))
     \<and> map fst obj' = map fst T"
proof (cases out)
  case (Some obj0)
  with start have o: "out = Some T" by simp
  from keys_all_set_cloned [OF d np run [unfolded o] own every] show ?thesis by auto
next
  case None
  with first obtain e0 post where ks: "ks = e0 # post"
    and ok: "is_ok (fst (snd e0) (val_at obj (fst e0)) m)"
    by (cases ks) auto
  obtain k f req where e0: "e0 = (k, f, req)" by (cases e0)
  from ok e0 obtain w where w: "f (val_at obj k) m = ROk w"
    by (cases "f (val_at obj k) m") auto
  from d np ks e0 have d': "distinct (map fst post)" and np': "''__proto__'' \<notin> fst ` set post"
    and k: "k \<notin> fst ` set post" and kp: "k \<noteq> ''__proto__''" by auto
  from keys_loop_step [OF run [unfolded ks e0 None]] w
  have step: "keys_loop m T obj post (None, Some (obj_set T k w)) = Inr (None, Some obj')"
    by simp
  from own ks e0 have ownk: "map_of T k \<noteq> None" by simp
  have own': "\<forall>e \<in> set post. map_of (obj_set T k w) (fst e) \<noteq> None"
    using own ks by (simp add: map_of_obj_set)
  have every': "m = STRIP \<or> (\<forall>e \<in> set post. is_ok (fst (snd e) (val_at obj (fst e)) m))"
    using every ks by auto
  from keys_all_set_cloned [OF d' np' step own' every']
  have b: "\<forall>e \<in> set post. map_of obj' (fst e) = Some (yielded (fst (snd e)) m (val_at obj (fst e)))"
    and a: "\<forall>k'. k' \<notin> fst ` set post \<longrightarrow> map_of obj' k' = map_of (obj_set T k w) k'"
    and c: "map fst obj' = map fst (obj_set T k w)"
    by auto
  from a k kp have "map_of obj' k = Some w" by (simp add: map_of_obj_set)
  with w have "map_of obj' k = Some (yielded f m (val_at obj k))" by (simp add: yielded_def)
  with b c ownk ks e0 show ?thesis by (simp add: map_fst_obj_set)
qed

lemma finish_None: "finish None out = (case out of None \<Rightarrow> RTrue | Some w \<Rightarrow> ROk w)"
  by (simp add: finish_def)

lemma object_run:
  assumes "rest_loop (map fst shape) (map_option func rest) m
       (if m = PASS \<or> rest \<noteq> None then obj else shapeTemplate (map fst shape)) obj (None, None)
       = Inr (None, outR)"
    and "keys_loop m
       (if m = PASS \<or> rest \<noteq> None then obj else shapeTemplate (map fst shape)) obj
       (map (\<lambda>e. (fst e, func (snd e), \<not> isOptional (snd e))) shape) (None, outR)
       = Inr (None, out')"
  shows "func (ObjectType shape rest) (VObj obj) m
           = (case out' of None \<Rightarrow> RTrue | Some obj' \<Rightarrow> ROk (VObj obj'))"
  using assms by (simp add: func_ObjectType_loops finish_def del: func.simps split: option.splits)

lemma undeclared_keys:
  "(undeclared shape obj = []) = (\<forall>e \<in> set obj. fst e \<in> set (map fst shape))"
  by (auto simp: undeclared_def filter_empty_conv)

lemma map_of_distinct_mem: "distinct (map fst obj) \<Longrightarrow> e \<in> set obj \<Longrightarrow> map_of obj (fst e) = Some (snd e)"
  by (cases e) simp

lemma ks_keys:
  "fst ` set (map (\<lambda>e. (fst e, func (snd e), \<not> isOptional (snd e))) shape) = set (map fst shape)"
  "map fst (map (\<lambda>e. (fst e, func (snd e), \<not> isOptional (snd e))) shape) = map fst shape"
  by (induction shape) (simp_all del: func.simps)

lemma object_twice_A:
  assumes dk: "distinct (map fst shape)" and np: "''__proto__'' \<notin> set (map fst shape)"
    and wf: "distinct (map fst obj)"
    and A: "m = PASS \<or> rest \<noteq> None"
    and run1: "func (ObjectType shape rest) (VObj obj) m = ROk W"
    and idemk: "\<And>e w obj'. e \<in> set shape \<Longrightarrow> func (snd e) (val_at obj (fst e)) m = ROk w
                  \<Longrightarrow> W = VObj obj' \<Longrightarrow> val_at obj' (fst e) = w
                  \<Longrightarrow> func (snd e) w m = RTrue \<or> func (snd e) w m = ROk w"
    and idemr: "\<And>r e w obj'. rest = Some r \<Longrightarrow> m = PASS \<Longrightarrow> e \<in> set obj
                  \<Longrightarrow> fst e \<notin> set (map fst shape) \<Longrightarrow> func r (snd e) PASS = ROk w
                  \<Longrightarrow> W = VObj obj' \<Longrightarrow> (fst e, w) \<in> set obj'
                  \<Longrightarrow> func r w PASS = RTrue \<or> func r w PASS = ROk w"
  shows "func (ObjectType shape rest) W m = RTrue \<or> func (ObjectType shape rest) W m = ROk W"
proof -
  let ?keys = "map fst shape"
  let ?ks = "map (\<lambda>e. (fst e, func (snd e), \<not> isOptional (snd e))) shape"
  let ?rf = "map_option func rest"
  have dks: "distinct (map fst ?ks)" unfolding ks_keys by (rule dk)
  have nps: "''__proto__'' \<notin> fst ` set ?ks" unfolding ks_keys by (rule np)
  from object_ok_loops [OF run1] A obtain it1 outR obj' where
    r1: "rest_loop ?keys ?rf m obj obj (None, None) = Inr (it1, outR)"
    and k1': "keys_loop m obj obj ?ks (it1, outR) = Inr (None, Some obj')"
    and W: "W = VObj obj'"
    by (auto split: if_splits)
  from keys_loop_None_results [OF k1'] have it1: "it1 = None" by simp
  note r1 = r1 [unfolded it1] and k1 = k1' [unfolded it1]
  \<comment> \<open>the first run of the loop over the input's keys\<close>
  have R: "(\<forall>k. k \<in> set ?keys \<longrightarrow> map_of (cur obj outR) k = map_of obj k)
     \<and> map fst (cur obj outR) = map fst obj
     \<and> (m = STRIP \<longrightarrow> undeclared shape obj \<noteq> [] \<longrightarrow> outR \<noteq> None)
     \<and> (m = STRICT \<longrightarrow> undeclared shape obj = [])
     \<and> (\<forall>r. rest = Some r \<longrightarrow> m = PASS \<longrightarrow>
           (\<forall>e \<in> set obj. fst e \<notin> set ?keys \<longrightarrow>
              \<not> is_err (func r (snd e) PASS)
              \<and> map_of (cur obj outR) (fst e) = Some (yielded (func r) PASS (snd e))))"
  proof (cases m)
    case PASS
    show ?thesis
    proof (cases rest)
      case None
      with PASS r1 show ?thesis by (simp add: rest_loop_pass_none)
    next
      case (Some r)
      from r1 PASS Some
      have l: "rest_loop ?keys (Some (func r)) PASS obj obj (None, None) = Inr (None, outR)" by simp
      have ag: "\<forall>e \<in> set obj. map_of (cur obj None) (fst e) = Some (snd e)"
        using wf by (simp add: map_of_distinct_mem)
      from rest_A [OF wf l ag] rest_loop_None_results [OF l] PASS Some show ?thesis by simp
    qed
  next
    case STRICT
    from rest_loop_Inr_strict [OF r1 [unfolded STRICT]]
    have dec: "\<forall>e \<in> set obj. fst e \<in> set ?keys" .
    from rest_loop_declared [OF this] r1 STRICT dec show ?thesis
      by (simp add: undeclared_keys)
  next
    case STRIP
    show ?thesis
    proof (cases "undeclared shape obj = []")
      case True
      then have "\<forall>e \<in> set obj. fst e \<in> set ?keys" by (simp add: undeclared_keys)
      from rest_loop_declared [OF this] r1 STRIP True show ?thesis by simp
    next
      case False
      then have "\<exists>e \<in> set obj. fst e \<notin> set ?keys" by (simp add: undeclared_keys)
      from rest_loop_strip [OF this, of ?rf obj None None] r1 STRIP have "outR = Some obj" by simp
      with STRIP show ?thesis by simp
    qed
  qed
  \<comment> \<open>the first run of the loop over the declared keys\<close>
  have agree: "\<forall>e \<in> set ?ks. map_of (cur obj outR) (fst e) = map_of obj (fst e)"
    using R by simp
  note kA = keys_A [OF dks nps k1 agree, unfolded ks_keys cur_simps]
  from kA have keep: "\<forall>k. k \<notin> set ?keys \<longrightarrow> map_of obj' k = map_of (cur obj outR) k"
    and keys2: "set (map fst obj') \<subseteq> set (map fst (cur obj outR)) \<union> set ?keys"
    and dist: "distinct (map fst (cur obj outR)) \<longrightarrow> distinct (map fst obj')"
    by blast+
  from kA have "\<forall>e \<in> set ?ks. val_at obj' (fst e) = yielded (fst (snd e)) m (val_at obj (fst e))"
    by blast
  then have P1: "\<forall>e \<in> set shape. val_at obj' (fst e) = yielded (func (snd e)) m (val_at obj (fst e))"
    by (simp del: func.simps)
  from R wf dist have wf': "distinct (map fst obj')" by simp
  from R keys2 have keys2': "set (map fst obj') \<subseteq> set (map fst obj) \<union> set ?keys" by simp
  have und: "undeclared shape obj = [] \<Longrightarrow> undeclared shape obj' = []"
  proof -
    assume "undeclared shape obj = []"
    then have "set (map fst obj) \<subseteq> set ?keys"
      by (auto simp: undeclared_keys)
    with keys2' have "set (map fst obj') \<subseteq> set ?keys" by blast
    then show "undeclared shape obj' = []"
      by (auto simp: undeclared_keys)
  qed
  \<comment> \<open>the second run of the loop over the input's keys\<close>
  have R2: "\<exists>out2R. rest_loop ?keys ?rf m obj' obj' (None, None) = Inr (None, out2R)
     \<and> (out2R = None \<or> out2R = Some obj' \<and> (m = STRIP \<longrightarrow> outR \<noteq> None))"
  proof (cases m)
    case PASS
    show ?thesis
    proof (cases rest)
      case None
      with PASS show ?thesis by (simp add: rest_loop_pass_none)
    next
      case (Some r)
      have "\<forall>e \<in> set obj'. fst e \<notin> set ?keys
             \<longrightarrow> (func r (snd e) PASS = RTrue \<or> func r (snd e) PASS = ROk (snd e))
                 \<and> map_of obj' (fst e) = Some (snd e)"
      proof (intro ballI impI)
        fix e' assume m': "e' \<in> set obj'" and u: "fst e' \<notin> set ?keys"
        from map_of_distinct_mem [OF wf' m'] have own: "map_of obj' (fst e') = Some (snd e')" .
        from m' have "fst e' \<in> set (map fst obj')" by simp
        with keys2' u have "fst e' \<in> set (map fst obj)" by blast
        then obtain e where e: "e \<in> set obj" and fe: "fst e = fst e'" by auto
        from R Some PASS have Rr: "\<forall>e \<in> set obj. fst e \<notin> set ?keys \<longrightarrow>
              \<not> is_err (func r (snd e) PASS)
              \<and> map_of (cur obj outR) (fst e) = Some (yielded (func r) PASS (snd e))"
          by blast
        from u fe have ue: "fst e \<notin> set ?keys" by simp
        from Rr e ue have ne: "\<not> is_err (func r (snd e) PASS)"
          and l0: "map_of (cur obj outR) (fst e) = Some (yielded (func r) PASS (snd e))"
          by blast+
        from l0 fe have l: "map_of (cur obj outR) (fst e') = Some (yielded (func r) PASS (snd e))"
          by simp
        from keep u l own have y: "snd e' = yielded (func r) PASS (snd e)" by simp
        from yielded_cases [of "func r" "snd e" PASS, OF ne]
        have "func r (snd e') PASS = RTrue \<or> func r (snd e') PASS = ROk (snd e')"
        proof (elim disjE conjE)
          assume "func r (snd e) PASS = RTrue" "yielded (func r) PASS (snd e) = snd e"
          with y show ?thesis by simp
        next
          assume ok: "func r (snd e) PASS = ROk (yielded (func r) PASS (snd e))"
          have "(fst e, yielded (func r) PASS (snd e)) = e'"
            unfolding fe y [symmetric] by simp
          with m' have "(fst e, yielded (func r) PASS (snd e)) \<in> set obj'" by simp
          from idemr [OF Some PASS e ue ok W this] y show ?thesis by simp
        qed
        with own show "(func r (snd e') PASS = RTrue \<or> func r (snd e') PASS = ROk (snd e'))
                 \<and> map_of obj' (fst e') = Some (snd e')" by simp
      qed
      from rest_second_run [of obj' ?keys "func r" obj' None, OF this] PASS Some
      show ?thesis by auto
    qed
  next
    case STRICT
    with R und have "\<forall>e \<in> set obj'. fst e \<in> set ?keys" by (simp add: undeclared_keys)
    from rest_loop_declared [OF this] show ?thesis by simp
  next
    case STRIP
    show ?thesis
    proof (cases "undeclared shape obj' = []")
      case True
      then have "\<forall>e \<in> set obj'. fst e \<in> set ?keys" by (simp add: undeclared_keys)
      from rest_loop_declared [OF this] show ?thesis by simp
    next
      case False
      then have "\<exists>e \<in> set obj'. fst e \<notin> set ?keys" by (simp add: undeclared_keys)
      from rest_loop_strip [OF this] have
        "rest_loop ?keys ?rf STRIP obj' obj' (None, None) = Inr (None, Some obj')" .
      moreover from False und have "undeclared shape obj \<noteq> []" by blast
      ultimately show ?thesis using R STRIP by simp
    qed
  qed
  then obtain out2R where r2: "rest_loop ?keys ?rf m obj' obj' (None, None) = Inr (None, out2R)"
    and inv: "out2R = None \<or> (out2R = Some (cur obj (Some obj')) \<and> (m = STRIP \<longrightarrow> outR \<noteq> None))"
    by auto
  \<comment> \<open>the second run of the loop over the declared keys\<close>
  have idem: "\<forall>e \<in> set ?ks. \<forall>w. fst (snd e) (val_at obj (fst e)) m = ROk w
                \<longrightarrow> fst (snd e) w m = RTrue \<or> fst (snd e) w m = ROk w"
  proof (intro ballI allI impI)
    fix e' w assume m': "e' \<in> set ?ks" and ok: "fst (snd e') (val_at obj (fst e')) m = ROk w"
    then obtain e where e: "e \<in> set shape" and e': "e' = (fst e, func (snd e), \<not> isOptional (snd e))"
      by auto
    from ok e' have ok': "func (snd e) (val_at obj (fst e)) m = ROk w" by simp
    with P1 e have "val_at obj' (fst e) = w" by (simp add: yielded_def)
    from idemk [OF e ok' W this] e' show "fst (snd e') w m = RTrue \<or> fst (snd e') w m = ROk w"
      by simp
  qed
  from keys_second_run [OF dks nps k1 agree idem inv] obtain out2' where
    k2: "keys_loop m obj' obj' ?ks (None, out2R) = Inr (None, out2')"
    and o2: "out2' = None \<or> out2' = Some obj'" by auto
  from A have T2: "(if m = PASS \<or> rest \<noteq> None then obj' else shapeTemplate ?keys) = obj'" by simp
  from object_run [of shape rest m obj' out2R out2', unfolded T2, OF r2 k2] o2 W
  show ?thesis by auto
qed

lemma not_mem_neq: "x \<notin> A \<Longrightarrow> y \<in> A \<Longrightarrow> y \<noteq> x"
  by blast

lemma set_shapeTemplate:
  "''__proto__'' \<notin> set keys \<Longrightarrow> set (map fst (shapeTemplate keys)) = set keys"
proof -
  assume np: "''__proto__'' \<notin> set keys"
  have "\<And>k. (k \<in> set (map fst (shapeTemplate keys))) = (k \<in> set keys)"
  proof -
    fix k
    have "(k \<in> set (map fst (shapeTemplate keys))) = (map_of (shapeTemplate keys) k \<noteq> None)"
      by (simp add: map_of_eq_None_iff)
    also have "\<dots> = (k \<in> set keys)" using np by (auto simp: map_of_shapeTemplate)
    finally show "(k \<in> set (map fst (shapeTemplate keys))) = (k \<in> set keys)" .
  qed
  then show ?thesis by blast
qed

lemma no_slip_all_set:
  assumes ns: "\<not> slips shape None m obj" and m: "m \<noteq> PASS"
    and run: "keys_loop m T obj (map (\<lambda>e. (fst e, func (snd e), \<not> isOptional (snd e))) shape)
                (None, None) = Inr (None, Some obj')"
    and und: "m = STRIP \<longrightarrow> undeclared shape obj = []"
  shows "(m = STRIP \<or> (\<forall>e \<in> set (map (\<lambda>e. (fst e, func (snd e), \<not> isOptional (snd e))) shape).
              is_ok (fst (snd e) (val_at obj (fst e)) m)))
     \<and> map (\<lambda>e. (fst e, func (snd e), \<not> isOptional (snd e))) shape \<noteq> []
     \<and> is_ok (fst (snd (hd (map (\<lambda>e. (fst e, func (snd e), \<not> isOptional (snd e))) shape)))
           (val_at obj (fst (hd (map (\<lambda>e. (fst e, func (snd e), \<not> isOptional (snd e))) shape)))) m)"
proof -
  let ?ks = "map (\<lambda>e. (fst e, func (snd e), \<not> isOptional (snd e))) shape"
  from keys_loop_None_results [OF run]
  have ne: "\<forall>e \<in> set shape. \<not> is_err (func (snd e) (val_at obj (fst e)) m)"
    by (simp del: func.simps)
  from keys_loop_uncloned [OF run] obtain pre e0 post w0 where
    ks: "?ks = pre @ e0 # post" and ok0: "fst (snd e0) (val_at obj (fst e0)) m = ROk w0"
    by auto
  have "e0 \<in> set ?ks" unfolding ks by simp
  then obtain e where e: "e \<in> set shape" and e0: "e0 = (fst e, func (snd e), \<not> isOptional (snd e))"
    by auto
  from ok0 e0 have "is_ok (func (snd e) (val_at obj (fst e)) m)" by simp
  with e have ex: "list_ex (\<lambda>e. is_ok (func (snd e) (val_at obj (fst e)) m)) shape"
    by (auto simp: list_ex_iff simp del: func.simps)
  from e have sh: "shape \<noteq> []" by auto
  then have hd: "hd ?ks = (fst (hd shape), func (snd (hd shape)), \<not> isOptional (snd (hd shape)))"
    by (simp add: hd_map del: func.simps)
  from sh have hdm: "hd shape \<in> set shape" by simp
  have ok_iff: "\<And>r. \<not> is_err r \<Longrightarrow> r \<noteq> RTrue \<Longrightarrow> is_ok r"
    by (case_tac r) simp_all
  show ?thesis
  proof (cases "m = STRICT")
    case True
    with ns ex m have nt: "\<not> list_ex (\<lambda>e. func (snd e) (val_at obj (fst e)) m = RTrue) shape"
      by (simp add: slips_def del: func.simps)
    have all: "\<forall>e \<in> set shape. is_ok (func (snd e) (val_at obj (fst e)) m)"
    proof
      fix e assume e: "e \<in> set shape"
      with nt have "func (snd e) (val_at obj (fst e)) m \<noteq> RTrue"
        by (auto simp: list_ex_iff simp del: func.simps)
      with ne e show "is_ok (func (snd e) (val_at obj (fst e)) m)" by (intro ok_iff) simp_all
    qed
    with sh hd hdm show ?thesis by (simp del: func.simps)
  next
    case False
    with m have s: "m = STRIP" by (cases m) simp_all
    with ns ex und have "func (snd (hd shape)) (val_at obj (fst (hd shape))) m \<noteq> RTrue"
      by (simp add: slips_def del: func.simps)
    with ne hdm have "is_ok (func (snd (hd shape)) (val_at obj (fst (hd shape))) m)"
      by (intro ok_iff) simp_all
    with s sh hd show ?thesis by (simp del: func.simps)
  qed
qed

lemma object_twice_B:
  assumes dk: "distinct (map fst shape)" and np: "''__proto__'' \<notin> set (map fst shape)"
    and B: "m \<noteq> PASS"
    and run1: "func (ObjectType shape None) (VObj obj) m = ROk W"
    and idemk: "\<And>e w obj'. e \<in> set shape \<Longrightarrow> func (snd e) (val_at obj (fst e)) m = ROk w
                  \<Longrightarrow> W = VObj obj' \<Longrightarrow> val_at obj' (fst e) = w
                  \<Longrightarrow> func (snd e) w m = RTrue \<or> func (snd e) w m = ROk w"
    and nb1: "\<not> slips shape None m obj"
    and nb2: "\<And>obj'. W = VObj obj' \<Longrightarrow> \<not> slips shape None m obj'"
  shows "func (ObjectType shape None) W m = RTrue \<or> func (ObjectType shape None) W m = ROk W"
proof -
  let ?keys = "map fst shape"
  let ?ks = "map (\<lambda>e. (fst e, func (snd e), \<not> isOptional (snd e))) shape"
  let ?T = "shapeTemplate ?keys"
  have dks: "distinct (map fst ?ks)" unfolding ks_keys by (rule dk)
  have nps: "''__proto__'' \<notin> fst ` set ?ks" unfolding ks_keys by (rule np)
  have TT: "\<And>x. (if m = PASS \<or> (None::schema option) \<noteq> None then x else ?T) = ?T"
    using B by simp
  from object_ok_loops [OF run1] obtain it1 outR obj' where
    r1: "rest_loop ?keys None m ?T obj (None, None) = Inr (it1, outR)"
    and k1': "keys_loop m ?T obj ?ks (it1, outR) = Inr (None, Some obj')"
    and W: "W = VObj obj'"
    unfolding TT by auto
  from keys_loop_None_results [OF k1'] have it1: "it1 = None" by simp
  note r1 = r1 [unfolded it1] and k1 = k1' [unfolded it1]
  have ownT: "\<forall>e \<in> set ?ks. map_of ?T (fst e) \<noteq> None"
  proof
    fix e' assume "e' \<in> set ?ks"
    then have "fst e' \<in> fst ` set ?ks" by (rule imageI)
    then have k: "fst e' \<in> set ?keys" unfolding ks_keys .
    from np k have "fst e' \<noteq> ''__proto__''" by (rule not_mem_neq)
    with k show "map_of ?T (fst e') \<noteq> None" by (simp only: map_of_shapeTemplate) simp
  qed
  have keysT: "set (map fst ?T) = set ?keys" using np by (rule set_shapeTemplate)
  \<comment> \<open>the first run\<close>
  have R: "(outR = None \<or> outR = Some ?T) \<and> (outR = None \<longrightarrow> m = STRIP \<longrightarrow> undeclared shape obj = [])"
  proof (cases "m = STRIP \<and> undeclared shape obj \<noteq> []")
    case True
    then have "\<exists>e \<in> set obj. fst e \<notin> set ?keys" by (simp add: undeclared_keys)
    from rest_loop_strip [OF this, of None ?T None None] r1 True have "outR = Some ?T" by simp
    then show ?thesis by simp
  next
    case False
    have "\<forall>e \<in> set obj. fst e \<in> set ?keys"
    proof (cases "m = STRICT")
      case True
      from rest_loop_Inr_strict [OF r1 [unfolded True]] show ?thesis .
    next
      case F: False
      with B have "m = STRIP" by (cases m) simp_all
      with False show ?thesis by (simp add: undeclared_keys)
    qed
    from rest_loop_declared [OF this] r1 False show ?thesis by auto
  qed
  have L1: "(\<forall>e \<in> set ?ks. map_of obj' (fst e) = Some (yielded (fst (snd e)) m (val_at obj (fst e))))
     \<and> map fst obj' = map fst ?T"
  proof (cases outR)
    case None
    with R have u: "m = STRIP \<longrightarrow> undeclared shape obj = []" by simp
    from no_slip_all_set [OF nb1 B k1 [unfolded None] u]
    have every: "m = STRIP \<or> (\<forall>e \<in> set ?ks. is_ok (fst (snd e) (val_at obj (fst e)) m))"
      and first: "None = (None :: (string \<times> jsval) list option)
           \<longrightarrow> ?ks \<noteq> [] \<and> is_ok (fst (snd (hd ?ks)) (val_at obj (fst (hd ?ks))) m)"
      by blast+
    from keys_all_set [OF dks nps k1 [unfolded None] ownT _ every first] show ?thesis by simp
  next
    case (Some x)
    with R have o: "outR = Some ?T" by simp
    have "m = STRIP"
    proof (rule ccontr)
      assume "m \<noteq> STRIP"
      with B have s: "m = STRICT" by (cases m) simp_all
      from rest_loop_Inr_strict [OF r1 [unfolded s]] have "\<forall>e \<in> set obj. fst e \<in> set ?keys" .
      from rest_loop_declared [OF this] r1 o show False by simp
    qed
    then have every: "m = STRIP \<or> (\<forall>e \<in> set ?ks. is_ok (fst (snd e) (val_at obj (fst e)) m))"
      by simp
    from keys_all_set [OF dks nps k1 [unfolded o] ownT _ every] show ?thesis by simp
  qed
  then have own1: "\<forall>e \<in> set shape. map_of obj' (fst e) = Some (yielded (func (snd e)) m (val_at obj (fst e)))"
    and fst1: "map fst obj' = map fst ?T"
    by (simp_all del: func.simps)
  have v1: "\<forall>e \<in> set shape. val_at obj' (fst e) = yielded (func (snd e)) m (val_at obj (fst e))
                \<and> obj_get obj' (fst e) \<noteq> None"
    using own1 val_at_own by blast
  from keys_loop_None_results [OF k1]
  have ne1: "\<forall>e \<in> set shape. \<not> is_err (func (snd e) (val_at obj (fst e)) m)"
    by (simp del: func.simps)
  \<comment> \<open>the second run\<close>
  have F2: "\<forall>e \<in> set shape. func (snd e) (val_at obj' (fst e)) m = RTrue
              \<or> func (snd e) (val_at obj' (fst e)) m = ROk (val_at obj' (fst e))"
  proof
    fix e assume e: "e \<in> set shape"
    from v1 e have v: "val_at obj' (fst e) = yielded (func (snd e)) m (val_at obj (fst e))" by simp
    from ne1 e have "\<not> is_err (func (snd e) (val_at obj (fst e)) m)" by simp
    from yielded_cases [of "func (snd e)" "val_at obj (fst e)" m, OF this]
    show "func (snd e) (val_at obj' (fst e)) m = RTrue
              \<or> func (snd e) (val_at obj' (fst e)) m = ROk (val_at obj' (fst e))"
    proof (elim disjE conjE)
      assume "func (snd e) (val_at obj (fst e)) m = RTrue"
        "yielded (func (snd e)) m (val_at obj (fst e)) = val_at obj (fst e)"
      with v show ?thesis by simp
    next
      assume ok: "func (snd e) (val_at obj (fst e)) m = ROk (yielded (func (snd e)) m (val_at obj (fst e)))"
      from idemk [OF e ok W v] v show ?thesis by simp
    qed
  qed
  have y2: "\<forall>e \<in> set shape. yielded (func (snd e)) m (val_at obj' (fst e)) = val_at obj' (fst e)"
    using F2 by (auto simp: yielded_def simp del: func.simps)
  from fst1 keysT have "set (map fst obj') = set ?keys" by simp
  then have u2: "undeclared shape obj' = []" by (auto simp: undeclared_keys)
  then have "\<forall>e \<in> set obj'. fst e \<in> set ?keys" by (simp add: undeclared_keys)
  from rest_loop_declared [OF this]
  have r2: "rest_loop ?keys None m ?T obj' (None, None) = Inr (None, None)" .
  have "\<forall>e \<in> set ?ks. \<not> (obj_get obj' (fst e) = None \<and> snd (snd e))"
    using v1 by (simp del: func.simps)
  moreover have "\<forall>e \<in> set ?ks. \<not> is_err (fst (snd e) (val_at obj' (fst e)) m)"
    using F2 by (auto simp del: func.simps)
  ultimately obtain out2' where k2: "keys_loop m ?T obj' ?ks (None, None) = Inr (None, out2')"
    using keys_loop_succeeds [of ?ks obj' m ?T None] by blast
  note run = object_run [of shape None m obj' None out2', unfolded TT option.map, OF r2 k2]
  show ?thesis
  proof (cases out2')
    case None
    with run W show ?thesis by simp
  next
    case (Some obj'')
    from no_slip_all_set [OF nb2 [OF W] B k2 [unfolded Some]] u2
    have every: "m = STRIP \<or> (\<forall>e \<in> set ?ks. is_ok (fst (snd e) (val_at obj' (fst e)) m))"
      and first: "None = (None :: (string \<times> jsval) list option)
           \<longrightarrow> ?ks \<noteq> [] \<and> is_ok (fst (snd (hd ?ks)) (val_at obj' (fst (hd ?ks))) m)"
      by blast+
    from keys_all_set [OF dks nps k2 [unfolded Some] ownT _ every first]
    have own2: "\<forall>e \<in> set shape. map_of obj'' (fst e) = Some (yielded (func (snd e)) m (val_at obj' (fst e)))"
      and fst2: "map fst obj'' = map fst ?T"
      by (simp_all del: func.simps)
    have "obj'' = obj'"
    proof (rule assoc_eq)
      show "distinct (map fst obj'')" unfolding fst2 by (rule distinct_shapeTemplate)
      show "map fst obj'' = map fst obj'" using fst1 fst2 by simp
    next
      fix k assume "k \<in> set (map fst obj'')"
      with fst2 keysT have "k \<in> set ?keys" by simp
      then obtain e where e: "e \<in> set shape" and k: "k = fst e" by auto
      from own2 e y2 v1 own1 show "map_of obj'' k = map_of obj' k"
        unfolding k by simp
    qed
    with run Some W show ?thesis by simp
  qed
qed

lemma array_loop_step:
  "array_loop f m arr i (x # xs) (it, out) =
     array_loop f m arr (Suc i) xs
       (case f x m of
          RTrue \<Rightarrow> (it, out)
        | ROk w \<Rightarrow> (it, Some ((cur arr out)[i := w]))
        | RErr r \<Rightarrow> (Some (joinIssues (prependPath (KNum i) r) it), out))"
  by (cases "f x m") (simp_all add: cur_def)

lemma array_loop_issues:
  "array_loop f m arr i xs (it, out) = (None, out') \<Longrightarrow> it = None"
proof (induction xs arbitrary: i it out)
  case Nil
  then show ?case by simp
next
  case (Cons x xs)
  show ?case
  proof (cases "f x m")
    case (RErr r)
    with Cons.prems have "array_loop f m arr (Suc i) xs
         (Some (joinIssues (prependPath (KNum i) r) it), out) = (None, out')" by simp
    from Cons.IH [OF this] show ?thesis by simp
  next
    case RTrue
    with Cons.prems have "array_loop f m arr (Suc i) xs (it, out) = (None, out')" by simp
    from Cons.IH [OF this] show ?thesis .
  next
    case (ROk w)
    with Cons.prems have "array_loop f m arr (Suc i) xs
        (it, Some ((cur arr out)[i := w])) = (None, out')" by (simp add: cur_def)
    from Cons.IH [OF this] show ?thesis .
  qed
qed

lemma drop_Cons_nth: "drop i ys = x # xs \<Longrightarrow> i < length ys \<and> ys ! i = x \<and> drop (Suc i) ys = xs"
proof -
  assume a: "drop i ys = x # xs"
  then have l: "i < length ys" by (cases "i < length ys") simp_all
  from a l show ?thesis by (simp add: Cons_nth_drop_Suc [symmetric])
qed

lemma array_A:
  "array_loop f m arr i xs (None, out) = (None, out') \<Longrightarrow> drop i (cur arr out) = xs
   \<Longrightarrow> (\<forall>x \<in> set xs. \<not> is_err (f x m))
       \<and> cur arr out' = take i (cur arr out) @ map (yielded f m) xs
       \<and> (out \<noteq> None \<longrightarrow> out' \<noteq> None)"
proof (induction xs arbitrary: i out)
  case Nil
  then show ?case by auto
next
  case (Cons x xs)
  from drop_Cons_nth [OF Cons.prems(2)]
  have i: "i < length (cur arr out)" and x: "cur arr out ! i = x"
    and d: "drop (Suc i) (cur arr out) = xs" by simp_all
  show ?case
  proof (cases "f x m")
    case RTrue
    with Cons.prems have l: "array_loop f m arr (Suc i) xs (None, out) = (None, out')" by simp
    from Cons.IH [OF l d] RTrue i x show ?thesis
      by (simp add: yielded_def take_Suc_conv_app_nth)
  next
    case (ROk w)
    let ?o = "Some ((cur arr out)[i := w])"
    from ROk Cons.prems have l: "array_loop f m arr (Suc i) xs (None, ?o) = (None, out')"
      by (simp add: cur_def)
    from d have d': "drop (Suc i) (cur arr ?o) = xs" by simp
    from Cons.IH [OF l d'] ROk i show ?thesis
      by (simp add: yielded_def take_Suc_conv_app_nth)
  next
    case (RErr r)
    with Cons.prems have "array_loop f m arr (Suc i) xs
         (Some (joinIssues (prependPath (KNum i) r) None), out) = (None, out')" by simp
    from array_loop_issues [OF this] show ?thesis by simp
  qed
qed

lemma array_second_run:
  "\<forall>y \<in> set xs. f y m = RTrue \<or> f y m = ROk y \<Longrightarrow> drop i ys = xs
   \<Longrightarrow> out = None \<or> out = Some ys
   \<Longrightarrow> \<exists>out'. array_loop f m ys i xs (None, out) = (None, out') \<and> (out' = None \<or> out' = Some ys)"
proof (induction xs arbitrary: i out)
  case Nil
  then show ?case by auto
next
  case (Cons x xs)
  from drop_Cons_nth [OF Cons.prems(2)]
  have i: "i < length ys" and x: "ys ! i = x" and d: "drop (Suc i) ys = xs" by simp_all
  from Cons.prems(1) have p: "\<forall>y \<in> set xs. f y m = RTrue \<or> f y m = ROk y"
    and r: "f x m = RTrue \<or> f x m = ROk x" by simp_all
  from r show ?case
  proof
    assume "f x m = RTrue"
    with Cons.IH [OF p d Cons.prems(3)] show ?thesis by simp
  next
    assume ok: "f x m = ROk x"
    from Cons.prems(3) x have "(cur ys out)[i := x] = ys" by (auto simp: cur_def)
    with ok have "array_loop f m ys i (x # xs) (None, out)
        = array_loop f m ys (Suc i) xs (None, Some ys)"
      by (simp only: array_loop_step result.case)
    with Cons.IH [OF p d, of "Some ys"] show ?thesis by simp
  qed
qed

lemma array_twice:
  assumes run1: "func (ArrayType item) (VArr arr) m = ROk W"
    and idem: "\<And>x w ys. x \<in> set arr \<Longrightarrow> func item x m = ROk w \<Longrightarrow> W = VArr ys \<Longrightarrow> w \<in> set ys
                 \<Longrightarrow> func item w m = RTrue \<or> func item w m = ROk w"
  shows "func (ArrayType item) W m = RTrue \<or> func (ArrayType item) W m = ROk W"
proof -
  obtain it out where l1: "array_loop (func item) m arr 0 arr (None, None) = (it, out)"
    by (metis surj_pair)
  with run1 have "finish it (map_option VArr out) = ROk W" by (simp add: arrayFunc_def)
  from finish_ROk [OF this] obtain ys where it: "it = None" and out: "out = Some ys"
    and W: "W = VArr ys" by auto
  from array_A [OF l1 [unfolded it out]]
  have ne: "\<forall>x \<in> set arr. \<not> is_err (func item x m)"
    and ys: "ys = map (yielded (func item) m) arr" by simp_all
  have "\<forall>y \<in> set ys. func item y m = RTrue \<or> func item y m = ROk y"
  proof
    fix y assume y: "y \<in> set ys"
    with ys obtain x where x: "x \<in> set arr" and yx: "y = yielded (func item) m x" by auto
    from ne x have "\<not> is_err (func item x m)" by simp
    from yielded_cases [of "func item" x m, OF this]
    show "func item y m = RTrue \<or> func item y m = ROk y"
    proof (elim disjE conjE)
      assume "func item x m = RTrue" "yielded (func item) m x = x"
      with yx show ?thesis by simp
    next
      assume ok: "func item x m = ROk (yielded (func item) m x)"
      from idem [OF x ok W] y yx show ?thesis by simp
    qed
  qed
  from array_second_run [where xs = ys and i = 0 and ys = ys and out = None and f = "func item"
      and m = m, OF this] obtain out2 where
    "array_loop (func item) m ys 0 ys (None, None) = (None, out2)" "out2 = None \<or> out2 = Some ys"
    by auto
  with W show ?thesis by (auto simp: arrayFunc_def finish_def)
qed

lemma wfv_val_at: "wfv (VObj obj) \<Longrightarrow> wfv (val_at obj k)"
proof -
  assume w: "wfv (VObj obj)"
  show ?thesis
  proof (cases "map_of obj k")
    case None
    then show ?thesis
      by (auto simp: val_at_def obj_get_def object_prototype_def split: option.splits if_splits)
  next
    case (Some x)
    then have "(k, x) \<in> set obj" by (rule map_of_SomeD)
    with w have "wfv x" by (auto simp: list_all_iff)
    with Some show ?thesis by (simp add: val_at_def obj_get_def)
  qed
qed

lemma func_RTrue_twice:
  "func s v m = RTrue \<Longrightarrow> func s (pval s m v) m = RTrue \<or> func s (pval s m v) m = ROk (pval s m v)"
  by (simp add: pval_def yielded_def)

lemma func_twice:
  "stable m s \<Longrightarrow> wfv v \<Longrightarrow> \<not> is_err (func s v m) \<Longrightarrow> \<not> blanks s m v
   \<Longrightarrow> \<not> blanks s m (pval s m v)
   \<Longrightarrow> func s (pval s m v) m = RTrue \<or> func s (pval s m v) m = ROk (pval s m v)"
proof (induction s arbitrary: v rule: func.induct)
  case (10 shape rest)
  show ?case
  proof (cases "func (ObjectType shape rest) v m")
    case RTrue
    then show ?thesis by (rule func_RTrue_twice)
  next
    case (RErr r)
    with "10.prems" show ?thesis by simp
  next
    case (ROk W)
    then have pv: "pval (ObjectType shape rest) m v = W" by (simp add: pval_def yielded_def)
    from ROk obtain obj where v: "v = VObj obj"
      by (cases v) (simp_all add: objectFunc_def)
    from "10.prems"(1) have dk: "distinct (map fst shape)"
      and np: "''__proto__'' \<notin> set (map fst shape)"
      and stk: "\<And>e. e \<in> set shape \<Longrightarrow> stable m (snd e)"
      and str: "\<And>r. rest = Some r \<Longrightarrow> stable m r"
      by (auto simp: list_all_iff)
    from "10.prems"(2) v have wf: "distinct (map fst obj)"
      and wfo: "wfv (VObj obj)"
      and wfe: "\<And>e. e \<in> set obj \<Longrightarrow> wfv (snd e)"
      by (auto simp: list_all_iff)
    from "10.prems"(4) v have nb1: "\<not> slips shape rest m obj"
      and nbk: "\<And>e. e \<in> set shape \<Longrightarrow> \<not> blanks (snd e) m (val_at obj (fst e))"
      and nbr: "\<And>r e. rest = Some r \<Longrightarrow> m = PASS \<Longrightarrow> e \<in> set obj
                 \<Longrightarrow> fst e \<notin> set (map fst shape) \<Longrightarrow> \<not> blanks r m (snd e)"
      by (auto simp: list_ex_iff)
    from "10.prems"(5) pv have nbW: "\<not> blanks (ObjectType shape rest) m W" by simp
    have idemk: "\<And>e w obj'. e \<in> set shape \<Longrightarrow> func (snd e) (val_at obj (fst e)) m = ROk w
                  \<Longrightarrow> W = VObj obj' \<Longrightarrow> val_at obj' (fst e) = w
                  \<Longrightarrow> func (snd e) w m = RTrue \<or> func (snd e) w m = ROk w"
    proof -
      fix e w obj'
      assume e: "e \<in> set shape" and ok: "func (snd e) (val_at obj (fst e)) m = ROk w"
        and W: "W = VObj obj'" and vw: "val_at obj' (fst e) = w"
      from ok have p: "pval (snd e) m (val_at obj (fst e)) = w" by (simp add: pval_def yielded_def)
      from nbW W e have "\<not> blanks (snd e) m (val_at obj' (fst e))" by (auto simp: list_ex_iff)
      with vw p have b2: "\<not> blanks (snd e) m (pval (snd e) m (val_at obj (fst e)))" by simp
      from ok have ne: "\<not> is_err (func (snd e) (val_at obj (fst e)) m)" by simp
      from "10.IH"(1) [OF e stk [OF e] wfv_val_at [OF wfo] ne nbk [OF e] b2] p
      show "func (snd e) w m = RTrue \<or> func (snd e) w m = ROk w" by simp
    qed
    have idemr: "\<And>r e w obj'. rest = Some r \<Longrightarrow> m = PASS \<Longrightarrow> e \<in> set obj
                  \<Longrightarrow> fst e \<notin> set (map fst shape) \<Longrightarrow> func r (snd e) PASS = ROk w
                  \<Longrightarrow> W = VObj obj' \<Longrightarrow> (fst e, w) \<in> set obj'
                  \<Longrightarrow> func r w PASS = RTrue \<or> func r w PASS = ROk w"
    proof -
      fix r e w obj'
      assume r: "rest = Some r" and m: "m = PASS" and e: "e \<in> set obj"
        and u: "fst e \<notin> set (map fst shape)" and ok: "func r (snd e) PASS = ROk w"
        and W: "W = VObj obj'" and mem: "(fst e, w) \<in> set obj'"
      from ok m have p: "pval r m (snd e) = w" by (simp add: pval_def yielded_def)
      from nbW W r m have "\<forall>e' \<in> set obj'. \<not> (fst e' \<notin> set (map fst shape) \<and> blanks r m (snd e'))"
        by (auto simp: list_ex_iff)
      from bspec [OF this mem] u have "\<not> blanks r m w" by simp
      with p have b2: "\<not> blanks r m (pval r m (snd e))" by simp
      from ok m have ne: "\<not> is_err (func r (snd e) m)" by simp
      from "10.IH"(2) [OF r str [OF r] wfe [OF e] ne nbr [OF r m e u] b2] p m
      show "func r w PASS = RTrue \<or> func r w PASS = ROk w" by simp
    qed
    have nb2: "\<And>obj'. W = VObj obj' \<Longrightarrow> \<not> slips shape rest m obj'"
      using nbW by auto
    have "func (ObjectType shape rest) W m = RTrue \<or> func (ObjectType shape rest) W m = ROk W"
    proof (cases "m = PASS \<or> rest \<noteq> None")
      case True
      show ?thesis
        apply (rule object_twice_A [OF dk np wf True ROk [unfolded v]])
         apply (rule idemk; assumption)
        apply (rule idemr; assumption)
        done
    next
      case False
      then have B: "m \<noteq> PASS" and rn: "rest = None" by simp_all
      show ?thesis
        unfolding rn
        apply (rule object_twice_B [OF dk np B ROk [unfolded v rn]])
          apply (rule idemk; assumption)
         apply (rule nb1 [unfolded rn])
        apply (rule nb2 [unfolded rn]; assumption)
        done
    qed
    with pv show ?thesis by simp
  qed
next
  case (11 item)
  show ?case
  proof (cases "func (ArrayType item) v m")
    case RTrue
    then show ?thesis by (rule func_RTrue_twice)
  next
    case (RErr r)
    with "11.prems" show ?thesis by simp
  next
    case (ROk W)
    then have pv: "pval (ArrayType item) m v = W" by (simp add: pval_def yielded_def)
    from ROk obtain arr where v: "v = VArr arr"
      by (cases v) (simp_all add: arrayFunc_def)
    from "11.prems"(5) pv have nbW: "\<not> blanks (ArrayType item) m W" by simp
    have idem: "\<And>x w ys. x \<in> set arr \<Longrightarrow> func item x m = ROk w \<Longrightarrow> W = VArr ys \<Longrightarrow> w \<in> set ys
                 \<Longrightarrow> func item w m = RTrue \<or> func item w m = ROk w"
    proof -
      fix x w ys
      assume x: "x \<in> set arr" and ok: "func item x m = ROk w" and W: "W = VArr ys"
        and w: "w \<in> set ys"
      from ok have p: "pval item m x = w" by (simp add: pval_def yielded_def)
      from "11.prems"(1) have st: "stable m item" by simp
      from "11.prems"(2) v x have wf: "wfv x" by (auto simp: list_all_iff)
      from "11.prems"(4) v x have b1: "\<not> blanks item m x" by (auto simp: list_ex_iff)
      from nbW W w p have b2: "\<not> blanks item m (pval item m x)" by (auto simp: list_ex_iff)
      from ok have ne: "\<not> is_err (func item x m)" by simp
      from "11.IH" [OF st wf ne b1 b2] p show "func item w m = RTrue \<or> func item w m = ROk w"
        by simp
    qed
    have "func (ArrayType item) W m = RTrue \<or> func (ArrayType item) W m = ROk W"
      apply (rule array_twice [OF ROk [unfolded v]])
      apply (rule idem; assumption)
      done
    with pv show ?thesis by simp
  qed
next
  case (12 opts)
  show ?case
  proof (cases "func (UnionType opts) v m")
    case RTrue
    then show ?thesis by (rule func_RTrue_twice)
  next
    case (RErr r)
    with "12.prems" show ?thesis by simp
  next
    case (ROk W)
    with "12.prems"(1) show ?thesis by (simp add: settled_def pval_def yielded_def del: func.simps)
  qed
next
  case (13 t)
  show ?case
  proof (cases "func (OptionalType t) v m")
    case RTrue
    then show ?thesis by (rule func_RTrue_twice)
  next
    case (RErr r)
    with "13.prems" show ?thesis by simp
  next
    case (ROk W)
    then have pv: "pval (OptionalType t) m v = W" by (simp add: pval_def yielded_def)
    from ROk have nv: "\<not> (v = VNothing \<or> v = VUndefined)" and ok: "func t v m = ROk W"
      by (auto split: if_splits)
    from ok have p: "pval t m v = W" by (simp add: pval_def yielded_def)
    show ?thesis
    proof (cases "W = VNothing \<or> W = VUndefined")
      case True
      with pv show ?thesis by auto
    next
      case False
      with "13.prems"(5) pv p have b2: "\<not> blanks t m (pval t m v)" by simp
      from "13.prems"(4) nv have b1: "\<not> blanks t m v" by simp
      from "13.prems"(1) have st: "stable m t" by simp
      from ok have ne: "\<not> is_err (func t v m)" by simp
      from "13.IH" [OF nv st "13.prems"(2) ne b1 b2] p pv False show ?thesis by simp
    qed
  qed
next
  case (14 t f)
  show ?case
  proof (cases "func (TransformType t f) v m")
    case RTrue
    then show ?thesis by (rule func_RTrue_twice)
  next
    case (RErr r)
    with "14.prems" show ?thesis by simp
  next
    case (ROk W)
    with "14.prems"(1) show ?thesis by (simp add: settled_def pval_def yielded_def del: func.simps)
  qed
qed (auto simp: pval_def yielded_def split: jsval.splits if_splits)

section \<open>C6: parsing the result of a parse\<close>



text \<open>
  The claim as stated fails for \<open>number().apply(v => "n")\<close>, whose transform has no side
  effect: \<open>parse\<close> maps \<open>1\<close> to \<open>"n"\<close>, and throws \<open>invalid_type\<close> for \<open>"n"\<close>.
\<close>

text \<open>
  Strip mode is not part of the amended claim. There a result need not be accepted
  again even without transforms: for \<open>object({a: number(), b: object({x: number()})})\<close>
  and the input \<open>{a: 1, b: {x: 1, y: 2}}\<close> the clone is made from the template of the
  declared keys when \<open>b\<close> changes, after \<open>a\<close> was visited, and \<open>a\<close> stays \<open>undefined\<close>.
\<close>

lemma strip_template_blanks_visited_key:
  "parse (ObjectType [(''a'', NumberType), (''b'', ObjectType [(''x'', NumberType)] None)] None)
     (VObj [(''a'', VNum (Fin 1)), (''b'', VObj [(''x'', VNum (Fin 1)), (''y'', VNum (Fin 2))])])
     (Some Strip)
   = Inr (VObj [(''a'', VUndefined), (''b'', VObj [(''x'', VNum (Fin 1))])])
   \<and> parse (ObjectType [(''a'', NumberType), (''b'', ObjectType [(''x'', NumberType)] None)] None)
     (VObj [(''a'', VUndefined), (''b'', VObj [(''x'', VNum (Fin 1))])]) (Some Strip)
   = Inl (ValitaError (Prepend (KStr ''a'') (Invalid_type None [''number''])))"
  by (simp add: parse_def object_defs)


section \<open>The loop over the roots of a bucket\<close>

lemma try_loop_find:
  "try_loop rs rootValue mode (it, c) =
     (case find (\<lambda>r. \<not> is_err (snd r rootValue mode)) rs of
        Some r \<Rightarrow> Inl (snd r rootValue mode)
      | None \<Rightarrow> Inr (joined rs rootValue mode it, c + length rs))"
proof (induction rs arbitrary: it c)
  case Nil
  then show ?case by simp
next
  case (Cons r rs)
  show ?case
  proof (cases "snd r rootValue mode")
    case (RErr e)
    with Cons.IH [of "Some (joinIssues e it)" "Suc c"] show ?thesis
      by (simp split: option.splits)
  qed simp_all
qed

lemma find_app:
  "find P (xs @ ys) = (case find P xs of None \<Rightarrow> find P ys | Some x \<Rightarrow> Some x)"
  by (induction xs) simp_all

lemma joined_append:
  "joined (xs @ ys) rootValue mode acc = joined ys rootValue mode (joined xs rootValue mode acc)"
  by (induction xs arbitrary: acc) (simp_all split: result.splits)

lemma try_loop_append:
  "(case try_loop xs rootValue mode (None, 0) of
      Inl r \<Rightarrow> Inl r
    | Inr st \<Rightarrow> try_loop ys rootValue mode st)
   = try_loop (xs @ ys) rootValue mode (None, 0)"
  by (simp add: try_loop_find find_app joined_append split: option.splits)

lemma matcher_via_try_loop:
  "createUnionMatcher t path rootValue v mode =
     (if v \<noteq> VNothing \<and> unknowns (build_tables fst t) = []
           \<and> toBaseType v \<notin> set (allTypes (build_tables fst t))
      then RErr (Invalid_type path (allTypes (build_tables fst t)))
      else (case try_loop (tried (build_tables fst t) v) rootValue mode (None, 0) of
              Inl r \<Rightarrow> r
            | Inr st \<Rightarrow> matcher_end path (map fst (literals (build_tables fst t))) st))"
proof -
  have "(case try_loop (options_for (build_tables fst t) v) rootValue mode (None, 0) of
               Inl r \<Rightarrow> r
             | Inr st \<Rightarrow>
                 (case try_loop (unknowns (build_tables fst t)) rootValue mode st of
                    Inl r \<Rightarrow> r
                  | Inr st' \<Rightarrow> matcher_end path (map fst (literals (build_tables fst t))) st'))
      = (case try_loop (options_for (build_tables fst t) v @ unknowns (build_tables fst t))
                rootValue mode (None, 0) of
              Inl r \<Rightarrow> r
            | Inr st \<Rightarrow> matcher_end path (map fst (literals (build_tables fst t))) st)"
    unfolding try_loop_append [symmetric] by (simp split: sum.splits)
  then show ?thesis
    by (simp add: createUnionMatcher_def Let_def tried_def)
qed

section \<open>The buckets, read off the alternatives\<close>

lemma firsts_snoc: "firsts (xs @ [a]) = (if a \<in> set xs then firsts xs else firsts xs @ [a])"
  by (simp add: firsts_def)

lemma set_firsts: "set (firsts xs) = set xs"
  by (simp add: firsts_def)

lemma distinct_firsts: "distinct (firsts xs)"
  by (simp add: firsts_def)

lemma roots_of_snoc:
  "roots_of (t @ [x]) k = roots_of t k @ (if kind_of (snd x) = k then [fst x] else [])"
  by (simp add: roots_of_def)

lemma map_set_group:
  "distinct ks \<Longrightarrow> map_set (map (\<lambda>k. (k, R k)) ks) k v
   = map (\<lambda>k'. (k', if k' = k then v else R k')) (set_add ks k)"
  by (induction ks) (auto simp: set_add_def)

lemma map_of_group:
  "map_of (map (\<lambda>k. (k, R k)) ks) k = (if k \<in> set ks then Some (R k) else None)"
  by (induction ks) auto

lemma map_push_group:
  "distinct ks \<Longrightarrow> map_push (map (\<lambda>k. (k, R k)) ks) k r
   = map (\<lambda>k'. (k', if k' = k then (if k \<in> set ks then R k else []) @ [r] else R k')) (set_add ks k)"
  by (simp add: map_push_def map_set_group map_of_group)

lemma roots_of_nil: "k \<notin> kind_of ` snd ` set t \<Longrightarrow> roots_of t k = []"
  by (auto simp: roots_of_def filter_empty_conv)

lemma lit_keys_snoc:
  "lit_keys (t @ [x]) =
     (case kind_of (snd x) of KLiteral l \<Rightarrow> set_add (lit_keys t) l | _ \<Rightarrow> lit_keys t)"
  by (simp add: lit_keys_def firsts_snoc set_add_def set_firsts split: kind.splits)

lemma type_names_snoc:
  "type_names (t @ [x]) =
     (case kind_of (snd x) of KBase ty \<Rightarrow> set_add (type_names t) ty | _ \<Rightarrow> type_names t)"
  by (simp add: type_names_def firsts_snoc set_add_def set_firsts split: kind.splits)

lemma set_lit_keys: "l \<in> set (lit_keys t) \<longleftrightarrow> KLiteral l \<in> kind_of ` snd ` set t"
  by (force simp: lit_keys_def set_firsts split: kind.splits)

lemma set_type_names: "ty \<in> set (type_names t) \<longleftrightarrow> KBase ty \<in> kind_of ` snd ` set t"
  by (force simp: type_names_def set_firsts split: kind.splits)

lemma classify_kind:
  "classify tb (r, tm) =
     (case kind_of tm of
        KNothing \<Rightarrow> tb\<lparr>nothings := nothings tb @ [r]\<rparr>
      | KUnknown \<Rightarrow> tb\<lparr>unknowns := unknowns tb @ [r]\<rparr>
      | KLiteral l \<Rightarrow> tb\<lparr>literals := map_push (literals tb) l r,
                 allTypes := set_add (allTypes tb) (toBaseType (lit_val l))\<rparr>
      | KBase ty \<Rightarrow> tb\<lparr>types := map_push (types tb) ty r,
                 allTypes := set_add (allTypes tb) ty\<rparr>)"
  apply (cases tm)
  apply (simp_all add: classify_def)
  subgoal for l by (cases l rule: lit_key.cases) simp_all
  done

lemma distinct_lit_keys: "distinct (lit_keys t)"
  by (simp add: lit_keys_def distinct_firsts)

lemma distinct_type_names: "distinct (type_names t)"
  by (simp add: type_names_def distinct_firsts)

lemma roots_of_absent_lit: "l \<notin> set (lit_keys t) \<Longrightarrow> roots_of t (KLiteral l) = []"
  by (rule roots_of_nil) (simp add: set_lit_keys)

lemma roots_of_absent_type: "ty \<notin> set (type_names t) \<Longrightarrow> roots_of t (KBase ty) = []"
  by (rule roots_of_nil) (simp add: set_type_names)

lemma classify_tables:
  "literals (foldl classify empty_tables t) = map (\<lambda>l. (l, roots_of t (KLiteral l))) (lit_keys t)
   \<and> types (foldl classify empty_tables t) = map (\<lambda>ty. (ty, roots_of t (KBase ty))) (type_names t)
   \<and> unknowns (foldl classify empty_tables t) = roots_of t KUnknown
   \<and> nothings (foldl classify empty_tables t) = roots_of t KNothing"
proof (induction t rule: rev_induct)
  case Nil
  show ?case by (simp add: empty_tables_def roots_of_def lit_keys_def type_names_def firsts_def)
next
  case (snoc x t)
  obtain r tm where x: "x = (r, tm)" by (cases x)
  show ?case
  proof (cases "kind_of tm")
    case KNothing
    with snoc x show ?thesis
      by (simp add: classify_kind roots_of_snoc lit_keys_snoc type_names_snoc)
  next
    case KUnknown
    with snoc x show ?thesis
      by (simp add: classify_kind roots_of_snoc lit_keys_snoc type_names_snoc)
  next
    case (KLiteral l)
    with snoc x show ?thesis
      by (simp add: classify_kind roots_of_snoc lit_keys_snoc type_names_snoc
          map_push_group distinct_lit_keys roots_of_absent_lit set_add_def)
  next
    case (KBase ty)
    with snoc x show ?thesis
      by (simp add: classify_kind roots_of_snoc lit_keys_snoc type_names_snoc
          map_push_group distinct_type_names roots_of_absent_type set_add_def)
  qed
qed

lemma map_set_present:
  "distinct (map fst m) \<Longrightarrow> map_of m k = Some x
   \<Longrightarrow> map_set m k v = map (\<lambda>e. (fst e, if fst e = k then v else snd e)) m"
proof (induction m)
  case Nil
  then show ?case by simp
next
  case (Cons e m)
  obtain k' v' where e: "e = (k', v')" by (cases e)
  show ?case
  proof (cases "k' = k")
    case True
    from Cons.prems(1) e True have "k \<notin> fst ` set m" by simp
    then have "map (\<lambda>e. (fst e, if fst e = k then v else snd e)) m = m"
      by (induction m) auto
    with e True show ?thesis by simp
  next
    case False
    with Cons e show ?thesis by simp
  qed
qed

lemma merge_literals_spec:
  "distinct (map fst tys)
   \<Longrightarrow> merge_literals es lits tys =
     (filter (\<lambda>e. \<not> (fst e \<in> fst ` set es \<and> map_of tys (toBaseType (lit_val (fst e))) \<noteq> None)) lits,
      map (\<lambda>e. (fst e, snd e @ concat (map snd (filter (\<lambda>x. toBaseType (lit_val (fst x)) = fst e) es)))) tys)"
proof (induction es arbitrary: lits tys)
  case Nil
  show ?case by simp
next
  case (Cons a es)
  obtain v vxs where a: "a = (v, vxs)" by (cases a)
  let ?bt = "toBaseType (lit_val v)"
  show ?case
  proof (cases "map_of tys ?bt")
    case None
    then have nokey: "\<And>e. e \<in> set tys \<Longrightarrow> fst e \<noteq> ?bt"
      by (metis map_of_eq_None_iff imageI)
    have "map (\<lambda>e. (fst e, snd e @ concat (map snd (filter (\<lambda>x. toBaseType (lit_val (fst x)) = fst e) (a # es))))) tys
        = map (\<lambda>e. (fst e, snd e @ concat (map snd (filter (\<lambda>x. toBaseType (lit_val (fst x)) = fst e) es)))) tys"
    proof (intro map_cong refl)
      fix e assume "e \<in> set tys"
      from nokey [OF this] a
      show "(fst e, snd e @ concat (map snd (filter (\<lambda>x. toBaseType (lit_val (fst x)) = fst e) (a # es))))
          = (fst e, snd e @ concat (map snd (filter (\<lambda>x. toBaseType (lit_val (fst x)) = fst e) es)))"
        by auto
    qed
    moreover have "filter (\<lambda>e. \<not> (fst e \<in> fst ` set (a # es) \<and> map_of tys (toBaseType (lit_val (fst e))) \<noteq> None)) lits
        = filter (\<lambda>e. \<not> (fst e \<in> fst ` set es \<and> map_of tys (toBaseType (lit_val (fst e))) \<noteq> None)) lits"
      using None a by (intro filter_cong) auto
    ultimately show ?thesis using Cons.IH [OF Cons.prems, of lits] None a by simp
  next
    case (Some opts)
    let ?tys' = "map (\<lambda>e. (fst e, if fst e = ?bt then opts @ vxs else snd e)) tys"
    have set: "map_set tys ?bt (opts @ vxs) = ?tys'"
      by (rule map_set_present [OF Cons.prems Some])
    have d': "distinct (map fst ?tys')" using Cons.prems by (simp add: comp_def)
    have keys: "\<And>k. (map_of ?tys' k = None) = (map_of tys k = None)"
      by (simp add: map_of_eq_None_iff image_image)
    have opts: "\<And>e. e \<in> set tys \<Longrightarrow> fst e = ?bt \<Longrightarrow> snd e = opts"
      using Some Cons.prems by (metis map_of_is_SomeI option.inject prod.collapse)
    have t: "map (\<lambda>e. (fst e, snd e @ concat (map snd (filter (\<lambda>x. toBaseType (lit_val (fst x)) = fst e) es)))) ?tys'
        = map (\<lambda>e. (fst e, snd e @ concat (map snd (filter (\<lambda>x. toBaseType (lit_val (fst x)) = fst e) (a # es))))) tys"
      using opts a by (auto simp: comp_def)
    have l: "filter (\<lambda>e. \<not> (fst e \<in> fst ` set es \<and> map_of ?tys' (toBaseType (lit_val (fst e))) \<noteq> None)) (map_delete lits v)
        = filter (\<lambda>e. \<not> (fst e \<in> fst ` set (a # es) \<and> map_of tys (toBaseType (lit_val (fst e))) \<noteq> None)) lits"
      unfolding keys map_delete_def filter_filter using Some a
      by (intro filter_cong) auto
    from Cons.IH [OF d', of "map_delete lits v"] Some a set t l show ?thesis by simp
  qed
qed

lemma merge_classified:
  "merge_literals (map (\<lambda>l. (l, roots_of t (KLiteral l))) (lit_keys t))
     (map (\<lambda>l. (l, roots_of t (KLiteral l))) (lit_keys t))
     (map (\<lambda>ty. (ty, roots_of t (KBase ty))) (type_names t))
   = (map (\<lambda>l. (l, roots_of t (KLiteral l)))
        (filter (\<lambda>l. toBaseType (lit_val l) \<notin> set (type_names t)) (lit_keys t)),
      map (\<lambda>ty. (ty, roots_of t (KBase ty)
             @ concat (map (\<lambda>l. roots_of t (KLiteral l))
                 (filter (\<lambda>l. toBaseType (lit_val l) = ty) (lit_keys t)))))
        (type_names t))"
proof -
  have d: "distinct (map fst (map (\<lambda>ty. (ty, roots_of t (KBase ty))) (type_names t)))"
    by (simp add: comp_def distinct_type_names)
  show ?thesis
    unfolding merge_literals_spec [OF d]
    by (simp add: filter_map comp_def map_of_group image_image cong: filter_cong)
qed

lemma build_tables_spec:
  "literals (build_tables ident t)
     = map (\<lambda>l. (l, difference ident (dedup ident (roots_of t (KLiteral l)))
                      (dedup ident (roots_of t KUnknown))))
         (filter (\<lambda>l. toBaseType (lit_val l) \<notin> set (type_names t)) (lit_keys t))"
  "types (build_tables ident t)
     = map (\<lambda>ty. (ty, difference ident (dedup ident (roots_of t (KBase ty)
             @ concat (map (\<lambda>l. roots_of t (KLiteral l))
                 (filter (\<lambda>l. toBaseType (lit_val l) = ty) (lit_keys t)))))
           (dedup ident (roots_of t KUnknown))))
        (type_names t)"
  "unknowns (build_tables ident t) = dedup ident (roots_of t KUnknown)"
  "nothings (build_tables ident t) = dedup ident (roots_of t KNothing)"
  by (simp_all add: build_tables_def Let_def merge_classified classify_tables comp_def)

lemma as_literal_base:
  "as_literal v = Some l \<Longrightarrow> toBaseType (lit_val (lit_key l)) = toBaseType v"
  by (cases v; cases l rule: lit_key.cases) auto

lemma difference_Nil: "difference ident [] ys = []"
  by (simp add: difference_def)

lemma dedup_Nil: "dedup ident [] = []"
  by (simp add: dedup_def)

lemma options_for_bucket:
  "options_for (build_tables ident t) v
   = difference ident (dedup ident (bucket t v)) (dedup ident (roots_of t KUnknown))"
proof (cases "toBaseType v \<in> set (type_names t)")
  case True
  then have "literals_get (literals (build_tables ident t)) v = None"
    by (auto simp: literals_get_def build_tables_spec map_of_group as_literal_base
        split: option.splits)
  with True show ?thesis
    by (simp add: options_for_def bucket_def build_tables_spec map_of_group)
next
  case False
  show ?thesis
  proof (cases "as_literal v")
    case None
    with False show ?thesis
      by (simp add: options_for_def bucket_def build_tables_spec map_of_group literals_get_def
          difference_Nil dedup_Nil)
  next
    case (Some l)
    with False show ?thesis
      by (simp add: options_for_def bucket_def build_tables_spec map_of_group literals_get_def
          as_literal_base roots_of_absent_lit difference_Nil dedup_Nil)
  qed
qed

lemma tried_order: "tried (build_tables fst t) v = trial_order t v"
  by (simp add: tried_def trial_order_def options_for_bucket build_tables_spec)

section \<open>C5: the trial of the alternatives of a bucket\<close>

text \<open>
  C5 says that the alternatives of the matched bucket are tried in declaration order.
  They are not: the bucket of a base type holds the alternatives with a terminal of
  that type in declaration order and, appended after them, the alternatives with a
  literal of that type, wherever they were declared; and the catch-alls are taken out
  of the bucket and tried after it.

  As amended: unless the value's base type is expected by no alternative and there is
  no catch-all (then the result is \<open>invalid_type\<close>), the matcher calls the roots
  \<open>trial_order t v\<close>, in that order: first the alternatives with a terminal of the
  value's base type, in declaration order; after them the alternatives with a literal
  of that base type, literal by literal in the order of the literals' first
  declarations, whichever literal the value is (when no alternative has a terminal of
  the base type: only the alternatives with the literal the value is); each of them
  once, at its first place, and none of the catch-alls; then the catch-alls in
  declaration order. The first success is the result, whatever the later ones would
  give. If all fail, the result is one \<open>invalid_union\<close> issue around the joined issue
  trees when more than one was tried, the issue tree of the one tried, unwrapped, when
  one was, and \<open>invalid_literal\<close> when none was.
\<close>

theorem C5_bucket_trial:
  "createUnionMatcher t path rootValue v mode =
     (if v \<noteq> VNothing \<and> unknowns (build_tables fst t) = []
           \<and> toBaseType v \<notin> set (allTypes (build_tables fst t))
      then RErr (Invalid_type path (allTypes (build_tables fst t)))
      else (case find (\<lambda>r. \<not> is_err (snd r rootValue mode)) (trial_order t v) of
              Some r \<Rightarrow> snd r rootValue mode
            | None \<Rightarrow>
                (case joined (trial_order t v) rootValue mode None of
                   None \<Rightarrow> RErr (Invalid_literal path (map fst (literals (build_tables fst t))))
                 | Some tree \<Rightarrow>
                     if length (trial_order t v) > 1
                     then RErr (Invalid_union None tree)
                     else RErr tree)))"
  unfolding tried_order [symmetric]
  by (simp add: matcher_via_try_loop try_loop_find matcher_end_def split: option.splits)

theorem C5_bucket_trial_witness:
  "createUnionMatcher
     (flatten (zip (zip [0, 1, 2]
        (map func [applyT (LiteralType (LStr ''a'')) (\<lambda>v. VStr ''first''),
                   applyT StringType (\<lambda>v. VStr ''second''),
                   LiteralType (LStr ''b'')]))
        [applyT (LiteralType (LStr ''a'')) (\<lambda>v. VStr ''first''),
         applyT StringType (\<lambda>v. VStr ''second''),
         LiteralType (LStr ''b'')]))
     None (VStr ''a'') (VStr ''a'') PASS
   = ROk (VStr ''second'')
   \<and> map fst (trial_order
     (flatten (zip (zip [0, 1, 2]
        (map func [applyT (LiteralType (LStr ''a'')) (\<lambda>v. VStr ''first''),
                   applyT StringType (\<lambda>v. VStr ''second''),
                   LiteralType (LStr ''b'')]))
        [applyT (LiteralType (LStr ''a'')) (\<lambda>v. VStr ''first''),
         applyT StringType (\<lambda>v. VStr ''second''),
         LiteralType (LStr ''b'')])) (VStr ''a''))
   = [1, 0, 2]
   \<and> createUnionMatcher
     (flatten (zip (zip [0, 1, 2]
        (map func [LiteralType (LNum (Fin 1)), NumberType, LiteralType (LNum (Fin 2))]))
        [LiteralType (LNum (Fin 1)), NumberType, LiteralType (LNum (Fin 2))]))
     None (VNum NaN) (VNum NaN) PASS
   = RTrue
   \<and> createUnionMatcher
     (flatten (zip (zip [0, 1] (map func [ArrayType NumberType, ArrayType StringType]))
        [ArrayType NumberType, ArrayType StringType]))
     None (VArr [VBool True]) (VArr [VBool True]) PASS
   = RErr (Invalid_union None
       (Join (Prepend (KNum 0) (Invalid_type None [''string'']))
          (Prepend (KNum 0) (Invalid_type None [''number'']))))
   \<and> createUnionMatcher
     (flatten (zip (zip [0, 1] (map func [ArrayType NumberType, StringType]))
        [ArrayType NumberType, StringType]))
     None (VArr [VBool True]) (VArr [VBool True]) PASS
   = RErr (Prepend (KNum 0) (Invalid_type None [''number'']))
   \<and> createUnionMatcher
     (flatten (zip (zip [0, 1] (map func [LiteralType (LStr ''a''), LiteralType (LStr ''b'')]))
        [LiteralType (LStr ''a''), LiteralType (LStr ''b'')]))
     None (VStr ''c'') (VStr ''c'') PASS
   = RErr (Invalid_literal None [LStr ''a'', LStr ''b''])"
  using C5_bucket_trial
    [of "flatten (zip (zip [0, 1, 2]
        (map func [applyT (LiteralType (LStr ''a'')) (\<lambda>v. VStr ''first''),
                   applyT StringType (\<lambda>v. VStr ''second''),
                   LiteralType (LStr ''b'')]))
        [applyT (LiteralType (LStr ''a'')) (\<lambda>v. VStr ''first''),
         applyT StringType (\<lambda>v. VStr ''second''),
         LiteralType (LStr ''b'')])" None "VStr ''a''" "VStr ''a''" PASS]
    C5_bucket_trial
    [of "flatten (zip (zip [0, 1, 2]
        (map func [LiteralType (LNum (Fin 1)), NumberType, LiteralType (LNum (Fin 2))]))
        [LiteralType (LNum (Fin 1)), NumberType, LiteralType (LNum (Fin 2))])"
        None "VNum NaN" "VNum NaN" PASS]
    C5_bucket_trial
    [of "flatten (zip (zip [0, 1] (map func [ArrayType NumberType, ArrayType StringType]))
        [ArrayType NumberType, ArrayType StringType])" None "VArr [VBool True]" "VArr [VBool True]" PASS]
    C5_bucket_trial
    [of "flatten (zip (zip [0, 1] (map func [ArrayType NumberType, StringType]))
        [ArrayType NumberType, StringType])" None "VArr [VBool True]" "VArr [VBool True]" PASS]
    C5_bucket_trial
    [of "flatten (zip (zip [0, 1] (map func [LiteralType (LStr ''a''), LiteralType (LStr ''b'')]))
        [LiteralType (LStr ''a''), LiteralType (LStr ''b'')])" None "VStr ''c''" "VStr ''c''" PASS]
  by (simp add: union_defs object_defs trial_order_def bucket_def roots_of_def lit_keys_def
      type_names_def firsts_def Let_def applyT_def)

text \<open>
  The claim as stated fails for
  \<open>union(literal("a").apply(v => "first"), string().apply(v => "second"))\<close> and the
  input \<open>"a"\<close>: both alternatives accept it, the one declared first with the result
  \<open>"first"\<close>; the roots tried are the second and then the first, and the result is
  \<open>"second"\<close>.
\<close>

theorem C5_declaration_order_counterexample:
  "func (applyT (LiteralType (LStr ''a'')) (\<lambda>v. VStr ''first'')) (VStr ''a'') PASS
     = ROk (VStr ''first'')
   \<and> map fst (tried (build_tables fst (flatten (zip
         (zip [0, 1]
            (map func [applyT (LiteralType (LStr ''a'')) (\<lambda>v. VStr ''first''),
                       applyT StringType (\<lambda>v. VStr ''second'')]))
         [applyT (LiteralType (LStr ''a'')) (\<lambda>v. VStr ''first''),
          applyT StringType (\<lambda>v. VStr ''second'')]))) (VStr ''a''))
     = [1, 0]
   \<and> func (UnionType [applyT (LiteralType (LStr ''a'')) (\<lambda>v. VStr ''first''),
                       applyT StringType (\<lambda>v. VStr ''second'')]) (VStr ''a'') PASS
     = ROk (VStr ''second'')"
  by (simp add: union_defs object_defs tried_def Let_def applyT_def)

section \<open>C3: a union of objects and an input without the discriminant key\<close>

text \<open>
  C3 says that, for a union of objects with a discriminant key, an input object that
  lacks the key is dispatched to the alternative that tolerates the absence, and that
  this alternative validates the input object. For
  \<open>union(object({kind: literal("a").optional(), x: number()}), object({kind: literal("b")}))\<close>
  the key \<open>kind\<close> is the discriminant, and the first alternative accepts the input
  \<open>{x: 1}\<close>. The union calls that alternative on the symbol \<open>Nothing\<close> instead of the
  input (\<open>item.nothing.func(Nothing, mode)\<close>), and the result is \<open>invalid_type\<close>,
  expected \<open>object\<close>.
\<close>

theorem C3_absent_discriminant_validates_symbol:
  "func (ObjectType [(''kind'', OptionalType (LiteralType (LStr ''a''))), (''x'', NumberType)] None)
     (VObj [(''x'', VNum (Fin 1))]) PASS = RTrue
   \<and> map om_key (createObjectMatchers (flatten (zip
         (zip [0, 1]
           (map func
             [ObjectType [(''kind'', OptionalType (LiteralType (LStr ''a''))), (''x'', NumberType)] None,
              ObjectType [(''kind'', LiteralType (LStr ''b''))] None]))
         [ObjectType [(''kind'', OptionalType (LiteralType (LStr ''a''))), (''x'', NumberType)] None,
          ObjectType [(''kind'', LiteralType (LStr ''b''))] None])))
     = [''kind'']
   \<and> parse (UnionType
         [ObjectType [(''kind'', OptionalType (LiteralType (LStr ''a''))), (''x'', NumberType)] None,
          ObjectType [(''kind'', LiteralType (LStr ''b''))] None])
       (VObj [(''x'', VNum (Fin 1))]) None
     = Inl (ValitaError (Invalid_type None [''object'']))"
  by (simp add: union_defs object_defs parse_def Let_def)

end
